theory Spec2Isabelle
  imports Main "HOL-Library.Sublist"
begin

section \<open>The TLS client of main.cpp\<close>

text \<open>
  The class \<open>HelloHTTPS\<close> of \<open>src/main.cpp\<close> drives one TLS session: \<open>startTest\<close>
  configures Mbed TLS, connects, runs the handshake loop, renders one request into
  \<open>_buffer\<close> and sends it, and reads the response into the same \<open>_buffer\<close> while
  scanning it for two markers. The calls into Mbed TLS, the socket and the C library
  are external. What each call returns is taken from a script, one entry for each
  call, and every call that has returned is recorded in a log. A script that is used
  up while a loop wants to call again leaves the loop running: no result is invented.
\<close>

subsection \<open>Constants\<close>

definition NUL :: char where
  "NUL = CHR 0x00"

definition LF :: char where
  "LF = CHR 0x0A"

definition HTTPS_SERVER_NAME :: string where
  "HTTPS_SERVER_NAME = ''os.mbed.com''"

definition RECV_BUFFER_SIZE :: nat where
  "RECV_BUFFER_SIZE = 600"

definition HTTPS_OK_STR :: string where
  "HTTPS_OK_STR = ''200 OK''"

definition HTTPS_HELLO_STR :: string where
  "HTTPS_HELLO_STR = ''Hello world!''"

definition DRBG_PERS :: string where
  "DRBG_PERS = ''mbed TLS helloword client''"

text \<open>The two retry codes of \<open>mbedtls/ssl.h\<close>: \<open>-0x6900\<close> and \<open>-0x6880\<close>.\<close>

definition MBEDTLS_ERR_SSL_WANT_READ :: int where
  "MBEDTLS_ERR_SSL_WANT_READ = - 26880"

definition MBEDTLS_ERR_SSL_WANT_WRITE :: int where
  "MBEDTLS_ERR_SSL_WANT_WRITE = - 26752"

subsection \<open>C strings and the buffer\<close>

text \<open>The text a \<open>char *\<close> denotes: the bytes before the first terminator.\<close>

definition c_str :: "char list \<Rightarrow> char list" where
  "c_str buf = takeWhile (\<lambda>c. c \<noteq> NUL) buf"

text \<open>
  \<open>strstr(hay, needle) != NULL\<close>: the scan tries the needle at every position of the
  text of \<open>hay\<close>, from the left.
\<close>

primrec scan :: "char list \<Rightarrow> char list \<Rightarrow> bool" where
  "scan [] needle = (needle = [])"
| "scan (c # cs) needle = (prefix needle (c # cs) \<or> scan cs needle)"

definition strstr :: "char list \<Rightarrow> char list \<Rightarrow> bool" where
  "strstr hay needle = scan (c_str hay) needle"

text \<open>
  Writing the bytes \<open>bs\<close> into the array \<open>buf\<close> from index \<open>i\<close>. An index outside
  the array is not a list update that does nothing: it is \<open>None\<close>.
\<close>

definition store :: "char list \<Rightarrow> int \<Rightarrow> char list \<Rightarrow> char list option" where
  "store buf i bs =
     (if 0 \<le> i \<and> i + int (length bs) \<le> int (length buf)
      then Some (take (nat i) buf @ bs @ drop (nat i + length bs) buf)
      else None)"

text \<open>
  \<open>snprintf(buf, n, ...)\<close> with the formatted text \<open>txt\<close>: at most \<open>n - 1\<close>
  characters and a terminator are written, and the value returned is the length of
  the whole text, written or not.
\<close>

definition snprintf :: "char list \<Rightarrow> nat \<Rightarrow> char list \<Rightarrow> char list option \<times> int" where
  "snprintf buf n txt =
     ((if n = 0 then Some buf else store buf 0 (take (n - 1) txt @ [NUL])),
      int (length txt))"

text \<open>
  The format \<open>"GET %s HTTP/1.1\nHost: %s\n\n"\<close> with \<open>path\<close> and the server name;
  \<open>path\<close> is the characters of the C string that is passed.
\<close>

definition request_text :: "char list \<Rightarrow> char list" where
  "request_text path =
     ''GET '' @ path @ '' HTTP/1.1'' @ [LF] @ ''Host: '' @ HTTPS_SERVER_NAME @ [LF, LF]"

subsection \<open>Calls and outcomes\<close>

text \<open>
  The calls that are logged. \<open>CtrDrbgSeed bs\<close>: the bytes that the personalization
  pointer and length cover. \<open>SslWrite off len\<close> and \<open>SslRead off len\<close>: the slice
  \<open>_buffer + off\<close> of length \<open>len\<close> that is passed. The setters of the configuration,
  which return nothing, and the report of the certificate between the write loop and
  the read loop, which touches neither the socket nor \<open>_buffer\<close>, are not logged.
\<close>

datatype call =
    CtrDrbgSeed "char list"
  | X509CrtParse
  | SslConfigDefaults
  | SslSetup
  | SocketConnect
  | SslHandshake
  | SslWrite int int
  | SslRead int int
  | SocketClose

text \<open>
  How \<open>startTest\<close> ends. \<open>Failed name ret\<close>: the early return after
  \<open>print_mbedtls_error(name, ret)\<close>, or after the failed connect.
  \<open>Reported bpos got200 gothello msg\<close>: the status messages at the end, \<open>msg\<close> being
  what \<open>"%s"\<close> prints of \<open>_buffer\<close>. \<open>Running\<close>: the script of results is used up and
  the loop is about to call again. \<open>Fault\<close>: a write outside \<open>_buffer\<close>.
\<close>

datatype outcome =
    Failed string int
  | Reported nat bool bool string
  | Running
  | Fault

text \<open>
  How a loop over a script ends: still running with the state reached, left with the
  last \<open>ret\<close> and the state, or stopped by a write outside the buffer.
\<close>

datatype 'a loop = Pending 'a | Done int 'a | Overrun

primrec state_of :: "'a loop \<Rightarrow> 'a option" where
  "state_of (Pending s) = Some s"
| "state_of (Done ret s) = Some s"
| "state_of Overrun = None"

subsection \<open>The handshake loop\<close>

text \<open>
  \<^verbatim>\<open>do { ret = mbedtls_ssl_handshake(&_ssl); }
  while (ret != 0 && (ret == MBEDTLS_ERR_SSL_WANT_READ || ret == MBEDTLS_ERR_SSL_WANT_WRITE));\<close>
  The result is the log and the last \<open>ret\<close>, or \<open>None\<close> while the loop is running.
\<close>

fun handshake_loop :: "int list \<Rightarrow> call list \<times> int option" where
  "handshake_loop [] = ([], None)"
| "handshake_loop (ret # rets) =
     (if ret \<noteq> 0 \<and> (ret = MBEDTLS_ERR_SSL_WANT_READ \<or> ret = MBEDTLS_ERR_SSL_WANT_WRITE)
      then (case handshake_loop rets of (cs, r) \<Rightarrow> (SslHandshake # cs, r))
      else ([SslHandshake], Some ret))"

text \<open>
  The same loop on an endless sequence of results, \<open>f i\<close> being what call number \<open>i\<close>
  returns, started at call \<open>i\<close>: the number of calls made and the last \<open>ret\<close>, or
  \<open>None\<close> when the loop is never left. On every finite part of the sequence it is
  the loop above (\<open>handshake_run_prefix\<close>).
\<close>

partial_function (option) handshake_run :: "(nat \<Rightarrow> int) \<Rightarrow> nat \<Rightarrow> (nat \<times> int) option" where
  "handshake_run f i =
     (let ret = f i in
      if ret \<noteq> 0 \<and> (ret = MBEDTLS_ERR_SSL_WANT_READ \<or> ret = MBEDTLS_ERR_SSL_WANT_WRITE)
      then handshake_run f (Suc i)
      else Some (Suc i, ret))"

subsection \<open>The write loop\<close>

text \<open>
  \<^verbatim>\<open>int offset = 0;
  do { ret = mbedtls_ssl_write(&_ssl, _buffer + offset, _bpos - offset);
       if (ret > 0) offset += ret;
  } while (offset < _bpos && (ret > 0 || ret == WANT_READ || ret == WANT_WRITE));\<close>
  The result is the log and, once the loop is left, the last \<open>ret\<close> and the final
  \<open>offset\<close>. \<open>offset\<close> starts at 0 and only grows, so its comparison with the
  unsigned \<open>_bpos\<close> is the comparison of the two numbers.
\<close>

fun write_loop :: "nat \<Rightarrow> int \<Rightarrow> int list \<Rightarrow> call list \<times> (int \<times> int) option" where
  "write_loop bpos offset [] = ([], None)"
| "write_loop bpos offset (ret # rets) =
     (let c = SslWrite offset (int bpos - offset);
          offset' = (if ret > 0 then offset + ret else offset)
      in if offset' < int bpos \<and>
            (ret > 0 \<or> ret = MBEDTLS_ERR_SSL_WANT_READ \<or> ret = MBEDTLS_ERR_SSL_WANT_WRITE)
         then (case write_loop bpos offset' rets of (cs, r) \<Rightarrow> (c # cs, r))
         else ([c], Some (ret, offset')))"

subsection \<open>The read loop\<close>

text \<open>
  What one call of \<open>mbedtls_ssl_read(ssl, buf, len)\<close> does, by the contract of the
  library: it either copies \<open>n\<close> bytes to \<open>buf\<close> with \<open>0 < n \<le> len\<close> and returns
  \<open>n\<close>, or copies nothing and returns a value that is not positive (0 when the peer
  has closed, a negative \<open>MBEDTLS_ERR_*\<close> code otherwise). \<open>Received bs\<close> offers the
  bytes \<open>bs\<close>, cut to \<open>len\<close>; an offer of no bytes, or a request for none, returns 0.
  \<open>Status r\<close> returns the code \<open>r\<close>, its sign forced.
\<close>

datatype rd_event = Received "char list" | Status int

fun mbedtls_ssl_read :: "rd_event \<Rightarrow> int \<Rightarrow> int \<times> char list" where
  "mbedtls_ssl_read (Received bs) len = (let d = take (nat len) bs in (int (length d), d))"
| "mbedtls_ssl_read (Status r) len = (- \<bar>r\<bar>, [])"

record rstate =
  buffer :: "char list"
  offset :: int
  got200 :: bool
  gothello :: bool

text \<open>
  One pass through the body of the loop:
  \<^verbatim>\<open>ret = mbedtls_ssl_read(&_ssl, _buffer + offset, sizeof(_buffer) - offset - 1);
  if (ret > 0) offset += ret;
  _buffer[offset] = 0;
  _got200 = _got200 || strstr(_buffer, HTTPS_OK_STR) != NULL;
  _gothello = _gothello || strstr(_buffer, HTTPS_HELLO_STR) != NULL;\<close>
  \<open>sizeof(_buffer)\<close> is the length of the array. The length passed is unsigned: were
  \<open>offset\<close> beyond the last index it would wrap to a huge value, which is \<open>None\<close> here.
\<close>

definition read_iter :: "rd_event \<Rightarrow> rstate \<Rightarrow> (int \<times> rstate) option" where
  "read_iter ev s =
     (let len = int (length (buffer s)) - offset s - 1 in
      if len < 0 then None
      else (case mbedtls_ssl_read ev len of (ret, bs) \<Rightarrow>
        (case store (buffer s) (offset s) bs of
           None \<Rightarrow> None
         | Some b1 \<Rightarrow>
            (let off = (if ret > 0 then offset s + ret else offset s) in
             (case store b1 off [NUL] of
                None \<Rightarrow> None
              | Some b2 \<Rightarrow>
                  Some (ret, \<lparr>buffer = b2, offset = off,
                              got200 = (got200 s \<or> strstr b2 HTTPS_OK_STR),
                              gothello = (gothello s \<or> strstr b2 HTTPS_HELLO_STR)\<rparr>))))))"

text \<open>
  \<^verbatim>\<open>do { ... } while ((!_got200 || !_gothello) &&
             (ret > 0 || ret == WANT_READ || ret == WANT_WRITE));\<close>
\<close>

fun read_loop :: "rd_event list \<Rightarrow> rstate \<Rightarrow> call list \<times> rstate loop" where
  "read_loop [] s = ([], Pending s)"
| "read_loop (ev # evs) s =
     (let c = SslRead (offset s) (int (length (buffer s)) - offset s - 1) in
      case read_iter ev s of
        None \<Rightarrow> ([c], Overrun)
      | Some (ret, s') \<Rightarrow>
          if (\<not> got200 s' \<or> \<not> gothello s') \<and>
             (ret > 0 \<or> ret = MBEDTLS_ERR_SSL_WANT_READ \<or> ret = MBEDTLS_ERR_SSL_WANT_WRITE)
          then (case read_loop evs s' of (cs, r) \<Rightarrow> (c # cs, r))
          else ([c], Done ret s'))"

subsection \<open>startTest\<close>

text \<open>
  The part of \<open>startTest\<close> from \<open>offset = 0\<close> before the read loop to the end: a
  negative \<open>ret\<close> closes the socket and returns; otherwise \<open>_bpos\<close> becomes \<open>offset\<close>,
  \<open>_buffer[_bpos] = 0\<close>, the socket is closed and the status messages are printed.
  The two flags were cleared at the top of \<open>startTest\<close> and nothing before the read
  loop assigns them.
\<close>

definition response_phase :: "rd_event list \<Rightarrow> char list \<Rightarrow> call list \<times> outcome" where
  "response_phase evs buf =
     (case read_loop evs \<lparr>buffer = buf, offset = 0, got200 = False, gothello = False\<rparr> of
        (cs, Overrun) \<Rightarrow> (cs, Fault)
      | (cs, Pending s) \<Rightarrow> (cs, Running)
      | (cs, Done ret s) \<Rightarrow>
          if ret < 0 then (cs @ [SocketClose], Failed ''mbedtls_ssl_read'' ret)
          else (case store (buffer s) (offset s) [NUL] of
                  None \<Rightarrow> (cs, Fault)
                | Some b \<Rightarrow>
                    (cs @ [SocketClose],
                     Reported (nat (offset s)) (got200 s) (gothello s) (c_str b))))"

text \<open>
  From \<open>_bpos = snprintf(_buffer, sizeof(_buffer) - 1, ...)\<close> on: the request is
  rendered, the write loop runs with \<open>_bpos\<close> the value that \<open>snprintf\<close> returned, a
  negative \<open>ret\<close> closes the socket and returns, and any other leads to the response.
\<close>

definition request_phase ::
  "int list \<Rightarrow> rd_event list \<Rightarrow> char list \<Rightarrow> char list \<Rightarrow> call list \<times> outcome" where
  "request_phase wrets evs buf path =
     (case snprintf buf (length buf - 1) (request_text path) of
        (None, n) \<Rightarrow> ([], Fault)
      | (Some buf', n) \<Rightarrow>
          (case write_loop (nat n) 0 wrets of
             (cs, None) \<Rightarrow> (cs, Running)
           | (cs, Some (ret, off)) \<Rightarrow>
               if ret < 0 then (cs @ [SocketClose], Failed ''mbedtls_ssl_write'' ret)
               else (case response_phase evs buf' of (cs', out) \<Rightarrow> (cs @ cs', out))))"

text \<open>
  What the external calls of one run return, and what the platform fixes:
  \<open>sizeof_ptr\<close> is \<open>sizeof (const char *)\<close>, and \<open>heap\<close> is the content of the
  memory in which the object is allocated.
\<close>

record env =
  sizeof_ptr :: nat
  heap :: "nat \<Rightarrow> char"
  seed_ret :: int
  parse_ret :: int
  defaults_ret :: int
  setup_ret :: int
  connect_ret :: int
  handshake_rets :: "int list"
  write_rets :: "int list"
  read_events :: "rd_event list"

text \<open>
  The constructor leaves \<open>_buffer\<close> as it finds it, but for
  \<open>_buffer[RECV_BUFFER_SIZE - 1] = 0\<close>.
\<close>

definition HelloHTTPS :: "(nat \<Rightarrow> char) \<Rightarrow> char list" where
  "HelloHTTPS mem = (map mem [0 ..< RECV_BUFFER_SIZE])[RECV_BUFFER_SIZE - 1 := NUL]"

text \<open>
  The arguments \<open>(const unsigned char *) DRBG_PERS, sizeof (DRBG_PERS)\<close> of the seed
  call. \<open>DRBG_PERS\<close> is declared \<open>const char *\<close>, so \<open>sizeof (DRBG_PERS)\<close> is the size
  of a pointer, and the call is given that many bytes from the start of the literal.
\<close>

definition seed_call :: "nat \<Rightarrow> call" where
  "seed_call psize = CtrDrbgSeed (take psize (DRBG_PERS @ [NUL]))"

text \<open>
  \<open>startTest(path)\<close>: each of the four configuration calls returns on a result other
  than 0, the connect closes the socket and returns on a result other than
  \<open>NSAPI_ERROR_OK\<close>, which is 0, and a negative result of the handshake loop closes
  the socket and returns.
\<close>

definition startTest :: "env \<Rightarrow> char list \<Rightarrow> call list \<times> outcome" where
  "startTest e path =
     (let c1 = [seed_call (sizeof_ptr e)];
          c2 = c1 @ [X509CrtParse];
          c3 = c2 @ [SslConfigDefaults];
          c4 = c3 @ [SslSetup];
          c5 = c4 @ [SocketConnect]
      in if seed_ret e \<noteq> 0 then (c1, Failed ''mbedtls_crt_drbg_init'' (seed_ret e))
         else if parse_ret e \<noteq> 0 then (c2, Failed ''mbedtls_x509_crt_parse'' (parse_ret e))
         else if defaults_ret e \<noteq> 0
           then (c3, Failed ''mbedtls_ssl_config_defaults'' (defaults_ret e))
         else if setup_ret e \<noteq> 0 then (c4, Failed ''mbedtls_ssl_setup'' (setup_ret e))
         else if connect_ret e \<noteq> 0
           then (c5 @ [SocketClose], Failed ''connect'' (connect_ret e))
         else (case handshake_loop (handshake_rets e) of
                 (cs, None) \<Rightarrow> (c5 @ cs, Running)
               | (cs, Some ret) \<Rightarrow>
                   if ret < 0
                   then (c5 @ cs @ [SocketClose], Failed ''mbedtls_ssl_handshake'' ret)
                   else (case request_phase (write_rets e) (read_events e)
                                 (HelloHTTPS (heap e)) path of
                           (cs', out) \<Rightarrow> (c5 @ cs @ cs', out))))"

subsection \<open>Notions used in the statements and proofs\<close>

text \<open>
  The state of the read loop: \<open>fits\<close> says that the fill cursor is an index of the
  buffer, \<open>rx\<close> is the part of the buffer before the fill cursor, \<open>marked\<close> says that
  each flag tells whether its marker occurs in the text of \<open>rx\<close>, \<open>terminated\<close> that
  the buffer has its capacity and a terminator at the fill cursor, \<open>again\<close> is the
  condition of the loop, and \<open>start\<close> the state in which the loop is entered.
\<close>

definition fits :: "rstate \<Rightarrow> bool" where
  "fits s = (0 \<le> offset s \<and> offset s < int (length (buffer s)))"

definition rx :: "rstate \<Rightarrow> char list" where
  "rx s = take (nat (offset s)) (buffer s)"

definition marked :: "rstate \<Rightarrow> bool" where
  "marked s = ((got200 s \<longleftrightarrow> sublist HTTPS_OK_STR (c_str (rx s))) \<and>
               (gothello s \<longleftrightarrow> sublist HTTPS_HELLO_STR (c_str (rx s))))"

definition terminated :: "nat \<Rightarrow> rstate \<Rightarrow> bool" where
  "terminated C s = (length (buffer s) = C \<and> buffer s ! nat (offset s) = NUL)"

definition again :: "rstate \<Rightarrow> int \<Rightarrow> bool" where
  "again s ret = ((\<not> got200 s \<or> \<not> gothello s) \<and>
     (0 < ret \<or> ret = MBEDTLS_ERR_SSL_WANT_READ \<or> ret = MBEDTLS_ERR_SSL_WANT_WRITE))"

definition start :: "char list \<Rightarrow> rstate" where
  "start buf = \<lparr>buffer = buf, offset = 0, got200 = False, gothello = False\<rparr>"

text \<open>
  The write loop: \<open>would_block\<close> is the test for the two retry codes, and \<open>sent\<close> is
  the number of bytes that a sequence of results reports as sent.
\<close>

definition would_block :: "int \<Rightarrow> bool" where
  "would_block ret = (ret = MBEDTLS_ERR_SSL_WANT_READ \<or> ret = MBEDTLS_ERR_SSL_WANT_WRITE)"

definition sent :: "int list \<Rightarrow> int" where
  "sent rets = sum_list (filter (\<lambda>r. 0 < r) rets)"

text \<open>
  Two states of the read loop that differ only in the bytes from the fill cursor on,
  and two runs of the loop that end alike in such states.
\<close>

definition sim :: "rstate \<Rightarrow> rstate \<Rightarrow> bool" where
  "sim s t = (offset s = offset t \<and> length (buffer s) = length (buffer t) \<and> rx s = rx t \<and>
              got200 s = got200 t \<and> gothello s = gothello t)"

fun sim_loop :: "rstate loop \<Rightarrow> rstate loop \<Rightarrow> bool" where
  "sim_loop (Pending s) (Pending t) = sim s t"
| "sim_loop (Done r s) (Done r' t) = (r = r' \<and> sim s t)"
| "sim_loop Overrun Overrun = True"
| "sim_loop _ _ = False"

text \<open>
  A run on a target with pointers of 4 bytes in which the configuration and the
  connect succeed and the handshake fails at its third call.
\<close>

definition env0 :: env where
  "env0 = \<lparr>sizeof_ptr = 4, heap = (\<lambda>_. CHR ''x''), seed_ret = 0, parse_ret = 0,
           defaults_ret = 0, setup_ret = 0, connect_ret = 0,
           handshake_rets = [MBEDTLS_ERR_SSL_WANT_READ, MBEDTLS_ERR_SSL_WANT_WRITE, - 1],
           write_rets = [], read_events = []\<rparr>"

section \<open>C strings and stores\<close>

lemma take_length_append: "take (length xs) (xs @ ys) = xs"
  by simp

lemma scan_sublist: "scan hay needle \<longleftrightarrow> sublist needle hay"
  by (induction hay) (auto simp: sublist_Cons_right)

lemma c_str_append_prefix: "prefix (c_str xs) (c_str (xs @ ys))"
  unfolding c_str_def by (induction xs) auto

lemma c_str_terminated: "c_str (xs @ NUL # ys) = c_str xs"
  unfolding c_str_def by (simp add: takeWhile_tail)

lemma c_str_no_NUL: "NUL \<notin> set xs \<Longrightarrow> c_str (xs @ NUL # ys) = xs"
  unfolding c_str_def by (induction xs) auto

lemma sublist_prefix_mono: "sublist n p \<Longrightarrow> prefix p q \<Longrightarrow> sublist n q"
  by (auto simp: prefix_def sublist_def) metis

lemma strstr_terminated: "strstr (xs @ NUL # ys) needle \<longleftrightarrow> sublist needle (c_str xs)"
  by (simp add: strstr_def c_str_terminated scan_sublist)

lemma store_inside:
  assumes "0 \<le> i" and "i + int (length bs) \<le> int (length buf)"
  shows "store buf i bs = Some (take (nat i) buf @ bs @ drop (nat i + length bs) buf)"
  using assms by (simp add: store_def)

section \<open>Configuration and handshake\<close>

lemma would_block_negative: "would_block r \<Longrightarrow> r < 0"
  by (auto simp: would_block_def MBEDTLS_ERR_SSL_WANT_READ_def MBEDTLS_ERR_SSL_WANT_WRITE_def)

lemma handshake_loop_retries:
  assumes "\<forall>w\<in>set ws. would_block w" and "\<not> would_block r"
  shows "handshake_loop (ws @ r # rest) = (replicate (Suc (length ws)) SslHandshake, Some r)"
  using assms
  by (induction ws)
     (auto simp: would_block_def MBEDTLS_ERR_SSL_WANT_READ_def MBEDTLS_ERR_SSL_WANT_WRITE_def)

lemma handshake_loop_blocked:
  assumes "\<forall>w\<in>set ws. would_block w"
  shows "handshake_loop ws = (replicate (length ws) SslHandshake, None)"
  using assms
  by (induction ws)
     (auto simp: would_block_def MBEDTLS_ERR_SSL_WANT_READ_def MBEDTLS_ERR_SSL_WANT_WRITE_def)

lemma handshake_run_returns:
  assumes "handshake_run f i = Some y"
  shows "\<exists>j. \<not> would_block (f j)"
  using assms
proof (rule handshake_run.raw_induct [where P = "\<lambda>f i y. \<exists>j. \<not> would_block (f j)", rotated])
  fix run :: "(nat \<Rightarrow> int) \<Rightarrow> nat \<Rightarrow> (nat \<times> int) option" and f i y
  assume IH: "\<And>f i y. run f i = Some y \<Longrightarrow> \<exists>j. \<not> would_block (f j)"
    and eq: "(let ret = f i in
              if ret \<noteq> 0 \<and> (ret = MBEDTLS_ERR_SSL_WANT_READ \<or> ret = MBEDTLS_ERR_SSL_WANT_WRITE)
              then run f (Suc i) else Some (Suc i, ret)) = Some y"
  show "\<exists>j. \<not> would_block (f j)"
  proof (cases "would_block (f i)")
    case True
    then have "f i \<noteq> 0" using would_block_negative by fastforce
    with True eq have "run f (Suc i) = Some y"
      by (simp add: Let_def would_block_def)
    then show ?thesis by (rule IH)
  next
    case False
    then show ?thesis by blast
  qed
qed

lemma handshake_run_blocked:
  assumes "\<forall>i. would_block (f i)"
  shows "handshake_run f i = None"
  using handshake_run_returns [of f i] assms by (cases "handshake_run f i") auto

lemma handshake_run_prefix:
  "handshake_run f i =
     (case handshake_loop (map f [i ..< i + n]) of
        (cs, Some r) \<Rightarrow> Some (i + length cs, r)
      | (cs, None) \<Rightarrow> handshake_run f (i + n))"
proof (induction n arbitrary: i)
  case 0
  then show ?case by simp
next
  case (Suc n)
  have "[i ..< i + Suc n] = i # [Suc i ..< Suc i + n]"
    by (simp add: upt_conv_Cons del: upt_Suc)
  then have u: "map f [i ..< i + Suc n] = f i # map f [Suc i ..< Suc i + n]"
    by (simp only: list.map)
  show ?case
  proof (cases "f i \<noteq> 0 \<and> (f i = MBEDTLS_ERR_SSL_WANT_READ \<or> f i = MBEDTLS_ERR_SSL_WANT_WRITE)")
    case True
    then have "handshake_run f i = handshake_run f (Suc i)"
      by (subst handshake_run.simps) (simp add: Let_def)
    also note Suc.IH [of "Suc i"]
    finally show ?thesis
      unfolding u using True by (auto split: prod.splits option.splits)
  next
    case False
    then have "handshake_run f i = Some (Suc i, f i)"
      by (subst handshake_run.simps) (auto simp: Let_def)
    then show ?thesis
      unfolding u using False by auto
  qed
qed

lemma length_HelloHTTPS: "length (HelloHTTPS mem) = 600"
  by (simp add: HelloHTTPS_def RECV_BUFFER_SIZE_def)

text \<open>
  Claim C7 says that the seed call is given the whole personalization string. It is
  not: the length passed is \<open>sizeof (DRBG_PERS)\<close>, the size of a pointer. Whatever the
  run, the first call of \<open>startTest\<close> covers \<open>"mbed"\<close> where a pointer has 4 bytes and
  \<open>"mbed TLS"\<close> where it has 8, of the 25 characters of the string.
\<close>

theorem C7_seed_length_is_pointer_size:
  "hd (fst (startTest (e\<lparr>sizeof_ptr := 4\<rparr>) path)) = CtrDrbgSeed ''mbed'' \<and>
   hd (fst (startTest (e\<lparr>sizeof_ptr := 8\<rparr>) path)) = CtrDrbgSeed ''mbed TLS'' \<and>
   length DRBG_PERS = 25"
  by (simp add: startTest_def Let_def seed_call_def DRBG_PERS_def split: prod.splits option.splits)

text \<open>
  Claim C4. Let the configuration and the connect succeed, and let the handshake
  return would-block results \<open>ws\<close> and then a result \<open>r\<close> that is neither retry code.
  Then the handshake is called once more after each would-block result and not after
  \<open>r\<close>: \<open>length ws + 1\<close> calls. If \<open>r\<close> is negative, the only call that follows is
  the close of the socket and \<open>startTest\<close> returns with the handshake error. If \<open>r\<close>
  is zero or positive, \<open>startTest\<close> goes on with the rendering and writing of the
  request.
\<close>

theorem C4_handshake_driver:
  assumes cfg: "seed_ret e = 0" "parse_ret e = 0" "defaults_ret e = 0" "setup_ret e = 0"
      "connect_ret e = 0"
    and hs: "handshake_rets e = ws @ r # rest"
    and ws: "\<forall>w\<in>set ws. w = MBEDTLS_ERR_SSL_WANT_READ \<or> w = MBEDTLS_ERR_SSL_WANT_WRITE"
    and r: "r \<noteq> MBEDTLS_ERR_SSL_WANT_READ" "r \<noteq> MBEDTLS_ERR_SSL_WANT_WRITE"
  shows "handshake_loop (handshake_rets e) = (replicate (Suc (length ws)) SslHandshake, Some r) \<and>
         (r < 0 \<longrightarrow>
            startTest e path =
              ([seed_call (sizeof_ptr e), X509CrtParse, SslConfigDefaults, SslSetup, SocketConnect]
                 @ replicate (Suc (length ws)) SslHandshake @ [SocketClose],
               Failed ''mbedtls_ssl_handshake'' r)) \<and>
         (0 \<le> r \<longrightarrow>
            startTest e path =
              ([seed_call (sizeof_ptr e), X509CrtParse, SslConfigDefaults, SslSetup, SocketConnect]
                 @ replicate (Suc (length ws)) SslHandshake
                 @ fst (request_phase (write_rets e) (read_events e) (HelloHTTPS (heap e)) path),
               snd (request_phase (write_rets e) (read_events e) (HelloHTTPS (heap e)) path)))"
proof -
  have "\<forall>w\<in>set ws. would_block w" using ws by (simp add: would_block_def)
  moreover have "\<not> would_block r" using r by (simp add: would_block_def)
  ultimately have h: "handshake_loop (handshake_rets e) =
      (replicate (Suc (length ws)) SslHandshake, Some r)"
    unfolding hs by (rule handshake_loop_retries)
  show ?thesis
    unfolding startTest_def Let_def h using cfg
    by (simp add: h split: prod.splits)
qed

theorem C4_handshake_driver_witness:
  "startTest env0 ''/'' =
     ([CtrDrbgSeed ''mbed'', X509CrtParse, SslConfigDefaults, SslSetup, SocketConnect,
       SslHandshake, SslHandshake, SslHandshake, SocketClose],
      Failed ''mbedtls_ssl_handshake'' (- 1)) \<and>
   startTest (env0\<lparr>handshake_rets := [MBEDTLS_ERR_SSL_WANT_READ, 0, - 1]\<rparr>) ''/'' =
     ([CtrDrbgSeed ''mbed'', X509CrtParse, SslConfigDefaults, SslSetup, SocketConnect,
       SslHandshake, SslHandshake], Running)"
proof -
  let ?e1 = "env0\<lparr>handshake_rets := [MBEDTLS_ERR_SSL_WANT_READ, 0, - 1]\<rparr>"
  have a: "startTest env0 ''/'' =
     ([seed_call (sizeof_ptr env0), X509CrtParse, SslConfigDefaults, SslSetup, SocketConnect]
       @ replicate (Suc (length [MBEDTLS_ERR_SSL_WANT_READ, MBEDTLS_ERR_SSL_WANT_WRITE]))
           SslHandshake @ [SocketClose],
      Failed ''mbedtls_ssl_handshake'' (- 1))"
    by (rule C4_handshake_driver [of env0 "[MBEDTLS_ERR_SSL_WANT_READ, MBEDTLS_ERR_SSL_WANT_WRITE]"
          "- 1" "[]", THEN conjunct2, THEN conjunct1, rule_format])
       (simp_all add: env0_def MBEDTLS_ERR_SSL_WANT_READ_def MBEDTLS_ERR_SSL_WANT_WRITE_def)
  have b: "startTest ?e1 ''/'' =
     ([seed_call (sizeof_ptr ?e1), X509CrtParse, SslConfigDefaults, SslSetup, SocketConnect]
       @ replicate (Suc (length [MBEDTLS_ERR_SSL_WANT_READ])) SslHandshake
       @ fst (request_phase (write_rets ?e1) (read_events ?e1) (HelloHTTPS (heap ?e1)) ''/''),
      snd (request_phase (write_rets ?e1) (read_events ?e1) (HelloHTTPS (heap ?e1)) ''/''))"
    by (rule C4_handshake_driver [of ?e1 "[MBEDTLS_ERR_SSL_WANT_READ]" 0 "[- 1]",
          THEN conjunct2, THEN conjunct2, rule_format])
       (simp_all add: env0_def MBEDTLS_ERR_SSL_WANT_READ_def MBEDTLS_ERR_SSL_WANT_WRITE_def)
  have r: "request_phase [] [] (HelloHTTPS mem) ''/'' = ([], Running)" for mem
    by (simp add: request_phase_def snprintf_def store_def length_HelloHTTPS request_text_def
        HTTPS_SERVER_NAME_def)
  have s: "seed_call 4 = CtrDrbgSeed ''mbed''" by (simp add: seed_call_def DRBG_PERS_def)
  from a b show ?thesis by (simp add: env0_def r s)
qed

section \<open>The request\<close>

lemma length_request_text: "length (request_text path) = 33 + length path"
  by (simp add: request_text_def HTTPS_SERVER_NAME_def)

lemma render_truncated:
  assumes "1 < length buf"
  shows "\<exists>b. snprintf buf (length buf - 1) txt = (Some b, int (length txt)) \<and>
             length b = length buf \<and> c_str b = c_str (take (length buf - 2) txt)"
proof -
  let ?w = "take (length buf - 2) txt"
  have n: "length buf - 1 - 1 = length buf - 2" by simp
  have l: "length ?w + 1 \<le> length buf" using assms by simp
  have "store buf 0 (?w @ [NUL]) = Some (take (nat 0) buf @ (?w @ [NUL]) @
          drop (nat 0 + length (?w @ [NUL])) buf)"
    using l by (intro store_inside) simp_all
  then have s: "store buf 0 (?w @ [NUL]) = Some (?w @ NUL # drop (length ?w + 1) buf)"
    by simp
  have "length (?w @ NUL # drop (length ?w + 1) buf) = length buf" using l by simp
  moreover have "c_str (?w @ NUL # drop (length ?w + 1) buf) = c_str ?w"
    by (rule c_str_terminated)
  ultimately show ?thesis
    using assms unfolding snprintf_def n s by simp
qed

text \<open>
  Claim C1 says that the write loop never reads or sends bytes past the end of the
  rendered region. The render is bounded (\<open>render_truncated\<close>), but \<open>_bpos\<close> is the
  value that \<open>snprintf\<close> returns, the length of the whole text. For a path of 600
  characters \<open>snprintf\<close> returns 633, the buffer keeps its 600 bytes and holds a text
  of 598 characters, and the write loop passes the slice of 633 bytes from offset 0;
  when that call returns 633, the loop is left with all 633 bytes counted as sent.
  The last part is the run of \<open>startTest\<close> up to that call.
\<close>

theorem C1_write_past_buffer:
  "snd (snprintf (HelloHTTPS mem) (length (HelloHTTPS mem) - 1)
          (request_text (replicate 600 (CHR ''a'')))) = 633 \<and>
   map_option (\<lambda>b. (length b, length (c_str b)))
     (fst (snprintf (HelloHTTPS mem) (length (HelloHTTPS mem) - 1)
          (request_text (replicate 600 (CHR ''a''))))) = Some (600, 598) \<and>
   write_loop 633 0 [633] = ([SslWrite 0 633], Some (633, 633)) \<and>
   startTest (env0\<lparr>handshake_rets := [0], write_rets := [633]\<rparr>) (replicate 600 (CHR ''a''))
     = ([CtrDrbgSeed ''mbed'', X509CrtParse, SslConfigDefaults, SslSetup, SocketConnect,
         SslHandshake, SslWrite 0 633], Running)"
proof -
  let ?path = "replicate 600 (CHR ''a'')"
  let ?b = "\<lambda>mem. (''GET '' @ replicate 594 (CHR ''a'')) @ NUL # drop 599 (HelloHTTPS mem)"
  have n: "length (request_text ?path) = 633"
    by (simp add: length_request_text)
  have t: "take 598 (request_text ?path) = ''GET '' @ replicate 594 (CHR ''a'')"
    by (simp add: request_text_def)
  have sn: "snprintf (HelloHTTPS m) (length (HelloHTTPS m) - 1) (request_text ?path)
              = (Some (?b m), 633)" for m
    by (simp add: snprintf_def store_def length_HelloHTTPS n t)
  have c: "c_str (?b mem) = ''GET '' @ replicate 594 (CHR ''a'')"
    by (rule c_str_no_NUL) (auto simp: NUL_def)
  have l: "length (?b mem) = 600" by (simp add: length_HelloHTTPS)
  have w: "write_loop 633 0 [633] = ([SslWrite 0 633], Some (633, 633))" by simp
  have r: "request_phase [633] [] (HelloHTTPS m) ?path = ([SslWrite 0 633], Running)" for m
    unfolding request_phase_def sn by (simp add: response_phase_def)
  have s: "seed_call 4 = CtrDrbgSeed ''mbed''" by (simp add: seed_call_def DRBG_PERS_def)
  have st: "startTest (env0\<lparr>handshake_rets := [0], write_rets := [633]\<rparr>) ?path
     = ([CtrDrbgSeed ''mbed'', X509CrtParse, SslConfigDefaults, SslSetup, SocketConnect,
         SslHandshake, SslWrite 0 633], Running)"
    by (simp add: startTest_def env0_def r s)
  show ?thesis
    unfolding sn using c l w st by simp
qed

lemma sent_nonneg: "0 \<le> sent rets"
  unfolding sent_def by (induction rets) auto

lemma sent_Cons: "sent (r # rets) = (if 0 < r then r + sent rets else sent rets)"
  by (simp add: sent_def)

lemma write_loop_again:
  assumes "(if 0 < ret then off + ret else off) < int bpos"
    and "0 < ret \<or> would_block ret"
  shows "write_loop bpos off (ret # rets) =
           (SslWrite off (int bpos - off) #
              fst (write_loop bpos (if 0 < ret then off + ret else off) rets),
            snd (write_loop bpos (if 0 < ret then off + ret else off) rets))"
  using assms by (auto simp: Let_def would_block_def split: prod.splits)

lemma write_loop_stop:
  assumes "\<not> ((if 0 < ret then off + ret else off) < int bpos \<and>
              (0 < ret \<or> would_block ret))"
  shows "write_loop bpos off (ret # rets) =
           ([SslWrite off (int bpos - off)],
            Some (ret, if 0 < ret then off + ret else off))"
  using assms by (auto simp: Let_def would_block_def split: prod.splits)

lemma write_loop_partial:
  assumes "off < int L" and "\<forall>r\<in>set rets. 0 < r \<or> would_block r"
    and "off + sent rets = int L"
  shows "\<exists>cs ret. write_loop L off rets = (cs, Some (ret, int L)) \<and> 0 < ret \<and>
           (\<forall>i<length cs. cs ! i = SslWrite (off + sent (take i rets))
                                      (int L - (off + sent (take i rets))) \<and>
                           off + sent (take i rets) < int L)"
  using assms
proof (induction rets arbitrary: off)
  case Nil
  then show ?case by (simp add: sent_def)
next
  case (Cons r rets)
  let ?off = "if 0 < r then off + r else off"
  from Cons.prems(2) have r: "0 < r \<or> would_block r" by simp
  have sum: "?off + sent rets = int L" using Cons.prems(3) by (simp add: sent_Cons split: if_splits)
  show ?case
  proof (cases "?off < int L")
    case True
    from Cons.prems(2) have all: "\<forall>r\<in>set rets. 0 < r \<or> would_block r" by simp
    from Cons.IH[OF True all sum] obtain cs ret where
      w: "write_loop L ?off rets = (cs, Some (ret, int L))" and pos: "0 < ret"
      and calls: "\<forall>i<length cs. cs ! i = SslWrite (?off + sent (take i rets))
                                      (int L - (?off + sent (take i rets))) \<and>
                           ?off + sent (take i rets) < int L"
      by blast
    have eq: "write_loop L off (r # rets) =
        (SslWrite off (int L - off) # cs, Some (ret, int L))"
      by (simp only: write_loop_again[OF True r] w fst_conv snd_conv)
    have "(SslWrite off (int L - off) # cs) ! i =
            SslWrite (off + sent (take i (r # rets))) (int L - (off + sent (take i (r # rets)))) \<and>
          off + sent (take i (r # rets)) < int L"
      if "i < length (SslWrite off (int L - off) # cs)" for i
    proof (cases i)
      case 0
      then show ?thesis using Cons.prems(1) by (simp add: sent_def)
    next
      case (Suc j)
      with that have "j < length cs" by simp
      with calls have "cs ! j = SslWrite (?off + sent (take j rets))
                                      (int L - (?off + sent (take j rets))) \<and>
                           ?off + sent (take j rets) < int L" by blast
      moreover have "off + sent (take (Suc j) (r # rets)) = ?off + sent (take j rets)"
        by (simp add: sent_Cons)
      ultimately show ?thesis unfolding Suc by (simp only: nth_Cons_Suc) 
    qed
    with eq pos show ?thesis by blast
  next
    case False
    with sum sent_nonneg[of rets] have off: "?off = int L" by linarith
    from False have "write_loop L off (r # rets) =
        ([SslWrite off (int L - off)], Some (r, ?off))"
      by (intro write_loop_stop) simp
    moreover have "0 < r" using off Cons.prems(1) by (simp split: if_splits)
    ultimately show ?thesis using off Cons.prems(1) by (simp add: sent_def)
  qed
qed

lemma write_loop_unsent:
  assumes "\<forall>r\<in>set rets. 0 < r \<or> would_block r" and "off + sent rets < int L"
  shows "snd (write_loop L off rets) = None"
  using assms
proof (induction rets arbitrary: off)
  case Nil
  then show ?case by simp
next
  case (Cons r rets)
  let ?off = "if 0 < r then off + r else off"
  from Cons.prems(1) have r: "0 < r \<or> would_block r" by simp
  have sum: "?off + sent rets < int L" using Cons.prems(2) by (simp add: sent_Cons split: if_splits)
  with sent_nonneg[of rets] have lt: "?off < int L" by linarith
  from Cons.prems(1) have all: "\<forall>r\<in>set rets. 0 < r \<or> would_block r" by simp
  show ?case
    by (simp only: write_loop_again[OF lt r] snd_conv Cons.IH[OF all sum])
qed

lemma write_loop_complete:
  assumes "0 < L"
    and "\<forall>r\<in>set rets. 0 < r \<or> r = MBEDTLS_ERR_SSL_WANT_READ \<or> r = MBEDTLS_ERR_SSL_WANT_WRITE"
    and "sent rets = int L"
  shows "\<exists>cs ret. write_loop L 0 rets = (cs, Some (ret, int L)) \<and> 0 < ret \<and>
           (\<forall>i<length cs. cs ! i = SslWrite (sent (take i rets)) (int L - sent (take i rets)) \<and>
                           sent (take i rets) < int L) \<and>
           (\<forall>k. sent (take k rets) < int L \<longrightarrow> snd (write_loop L 0 (take k rets)) = None)"
proof -
  have all: "\<forall>r\<in>set rets. 0 < r \<or> would_block r" using assms(2) by (simp add: would_block_def)
  have s: "0 + sent rets = int L" using assms(3) by simp
  have l: "(0::int) < int L" using assms(1) by simp
  from write_loop_partial[OF l all s] obtain cs ret where
    w: "write_loop L 0 rets = (cs, Some (ret, int L))" "0 < ret"
    "\<forall>i<length cs. cs ! i = SslWrite (0 + sent (take i rets))
                                      (int L - (0 + sent (take i rets))) \<and>
                           0 + sent (take i rets) < int L" by blast
  have "snd (write_loop L 0 (take k rets)) = None" if "sent (take k rets) < int L" for k
  proof -
    have "\<forall>r\<in>set (take k rets). 0 < r \<or> would_block r"
      using all by (meson in_set_takeD)
    then show ?thesis using that by (intro write_loop_unsent) simp_all
  qed
  with w show ?thesis by simp
qed

text \<open>
  Claim C2. Let \<open>L\<close> be the byte length of the request for some path, and let the
  results of the write calls be positive counts that sum to \<open>L\<close>, with would-block
  results anywhere among them. Then the write loop is left with a positive last
  result and the offset \<open>L\<close>; call number \<open>i\<close> passes the slice that starts at the
  number of bytes sent by the results before it, a number below \<open>L\<close>, and has all the
  remaining bytes; for as long as the results so far sum to less than \<open>L\<close>, the loop
  has not been left; and \<open>startTest\<close> goes on from the write loop to the response,
  not to the error return.
\<close>

theorem C2_partial_writes:
  assumes "L = length (request_text path)"
    and "\<forall>r\<in>set rets. 0 < r \<or> r = MBEDTLS_ERR_SSL_WANT_READ \<or> r = MBEDTLS_ERR_SSL_WANT_WRITE"
    and "sent rets = int L"
  shows "\<exists>cs ret. write_loop L 0 rets = (cs, Some (ret, int L)) \<and> 0 < ret \<and>
           (\<forall>i<length cs. cs ! i = SslWrite (sent (take i rets)) (int L - sent (take i rets)) \<and>
                           sent (take i rets) < int L) \<and>
           (\<forall>k. sent (take k rets) < int L \<longrightarrow> snd (write_loop L 0 (take k rets)) = None) \<and>
           (\<forall>buf evs. 1 < length buf \<longrightarrow>
              (\<exists>b. snprintf buf (length buf - 1) (request_text path) = (Some b, int L) \<and>
                   request_phase rets evs buf path =
                     (cs @ fst (response_phase evs b), snd (response_phase evs b))))"
proof -
  have "0 < L" using assms(1) by (simp add: length_request_text)
  from write_loop_complete [OF this assms(2,3)] obtain cs ret where
    w: "write_loop L 0 rets = (cs, Some (ret, int L))" "0 < ret"
    and c: "\<forall>i<length cs. cs ! i = SslWrite (sent (take i rets)) (int L - sent (take i rets)) \<and>
                           sent (take i rets) < int L"
    and k: "\<forall>k. sent (take k rets) < int L \<longrightarrow> snd (write_loop L 0 (take k rets)) = None"
    by blast
  have "\<exists>b. snprintf buf (length buf - 1) (request_text path) = (Some b, int L) \<and>
             request_phase rets evs buf path =
               (cs @ fst (response_phase evs b), snd (response_phase evs b))"
    if "1 < length buf" for buf evs
  proof -
    from render_truncated [OF that, of "request_text path"] obtain b where
      b: "snprintf buf (length buf - 1) (request_text path) = (Some b, int L)"
      using assms(1) by auto
    have "request_phase rets evs buf path =
            (cs @ fst (response_phase evs b), snd (response_phase evs b))"
      unfolding request_phase_def b using w by (simp add: split_beta)
    with b show ?thesis by blast
  qed
  with w c k show ?thesis by blast
qed

theorem C2_partial_writes_witness:
  "\<exists>cs ret. write_loop 34 0
       [MBEDTLS_ERR_SSL_WANT_READ, 20, MBEDTLS_ERR_SSL_WANT_WRITE, 14, MBEDTLS_ERR_SSL_WANT_READ]
       = (cs, Some (ret, 34)) \<and> 0 < ret \<and>
     cs ! 0 = SslWrite 0 34 \<and> cs ! 2 = SslWrite 20 14 \<and>
     snd (write_loop 34 0 (take 3
       [MBEDTLS_ERR_SSL_WANT_READ, 20, MBEDTLS_ERR_SSL_WANT_WRITE, 14, MBEDTLS_ERR_SSL_WANT_READ]))
       = None \<and>
     snd (request_phase
       [MBEDTLS_ERR_SSL_WANT_READ, 20, MBEDTLS_ERR_SSL_WANT_WRITE, 14, MBEDTLS_ERR_SSL_WANT_READ]
       [] (replicate 40 NUL) ''/'') = Running"
proof -
  let ?rets = "[MBEDTLS_ERR_SSL_WANT_READ, 20, MBEDTLS_ERR_SSL_WANT_WRITE, 14,
                MBEDTLS_ERR_SSL_WANT_READ]"
  have h1: "34 = length (request_text ''/'')" by (simp add: length_request_text)
  have h2: "\<forall>r\<in>set ?rets. 0 < r \<or> r = MBEDTLS_ERR_SSL_WANT_READ \<or>
               r = MBEDTLS_ERR_SSL_WANT_WRITE" by simp
  have h3: "sent ?rets = int 34"
    by (simp add: sent_def MBEDTLS_ERR_SSL_WANT_READ_def MBEDTLS_ERR_SSL_WANT_WRITE_def)
  from C2_partial_writes [OF h1 h2 h3] obtain cs ret where
    w: "write_loop 34 0 ?rets = (cs, Some (ret, int 34))" "0 < ret"
    and c: "\<forall>i<length cs. cs ! i = SslWrite (sent (take i ?rets)) (int 34 - sent (take i ?rets))
                            \<and> sent (take i ?rets) < int 34"
    and k: "\<forall>k. sent (take k ?rets) < int 34 \<longrightarrow> snd (write_loop 34 0 (take k ?rets)) = None"
    and q: "\<forall>buf evs. 1 < length buf \<longrightarrow>
              (\<exists>b. snprintf buf (length buf - 1) (request_text ''/'') = (Some b, int 34) \<and>
                   request_phase ?rets evs buf ''/'' =
                     (cs @ fst (response_phase evs b), snd (response_phase evs b)))"
    by blast
  have len: "length cs = 4"
    using w(1)
    by (auto simp: MBEDTLS_ERR_SSL_WANT_READ_def MBEDTLS_ERR_SSL_WANT_WRITE_def)
  have s0: "sent (take 0 ?rets) = 0" and s2: "sent (take 2 ?rets) = 20"
    and s3: "sent (take 3 ?rets) = 20"
    by (simp_all add: sent_def MBEDTLS_ERR_SSL_WANT_READ_def MBEDTLS_ERR_SSL_WANT_WRITE_def)
  from c len have "cs ! 0 = SslWrite (sent (take 0 ?rets)) (int 34 - sent (take 0 ?rets))"
    and "cs ! 2 = SslWrite (sent (take 2 ?rets)) (int 34 - sent (take 2 ?rets))" by simp_all
  then have c02: "cs ! 0 = SslWrite 0 34" "cs ! 2 = SslWrite 20 14" unfolding s0 s2 by simp_all
  have lt: "sent (take 3 ?rets) < int 34" unfolding s3 by simp
  from k [rule_format, OF lt] have n: "snd (write_loop 34 0 (take 3 ?rets)) = None" .
  have "1 < length (replicate 40 NUL)" by simp
  from q [rule_format, OF this, of "[]"] obtain b where
    "request_phase ?rets [] (replicate 40 NUL) ''/'' =
       (cs @ fst (response_phase [] b), snd (response_phase [] b))" by blast
  then have "snd (request_phase ?rets [] (replicate 40 NUL) ''/'') = Running"
    by (simp add: response_phase_def)
  with w c02 n show ?thesis by auto
qed

section \<open>The response\<close>

lemma ssl_read_length:
  "mbedtls_ssl_read ev len = (ret, d) \<Longrightarrow> length d \<le> nat len"
  by (cases ev) (auto simp: Let_def)

lemma ssl_read_pos:
  "mbedtls_ssl_read ev len = (ret, d) \<Longrightarrow> 0 < ret \<Longrightarrow> ret = int (length d)"
  by (cases ev) (auto simp: Let_def)

lemma ssl_read_nonpos:
  "mbedtls_ssl_read ev len = (ret, d) \<Longrightarrow> ret \<le> 0 \<Longrightarrow> d = []"
  by (cases ev) (auto simp: Let_def min_def split: if_splits)

lemma read_iter_fits:
  assumes f: "fits s"
    and r: "mbedtls_ssl_read ev (int (length (buffer s)) - offset s - 1) = (ret, d)"
  shows "read_iter ev s =
           Some (ret,
             \<lparr>buffer = rx s @ d @ NUL # drop (nat (offset s) + length d + 1) (buffer s),
              offset = offset s + int (length d),
              got200 = (got200 s \<or>
                 strstr (rx s @ d @ NUL # drop (nat (offset s) + length d + 1) (buffer s)) HTTPS_OK_STR),
              gothello = (gothello s \<or>
                 strstr (rx s @ d @ NUL # drop (nat (offset s) + length d + 1) (buffer s)) HTTPS_HELLO_STR)\<rparr>)"
proof -
  let ?b = "buffer s" and ?o = "nat (offset s)"
  from f have o: "0 \<le> offset s" "?o < length ?b" by (auto simp: fits_def)
  have len: "\<not> int (length ?b) - offset s - 1 < 0" using o by linarith
  from ssl_read_length[OF r] o have dl: "?o + length d + 1 \<le> length ?b" by linarith
  have off: "(if 0 < ret then offset s + ret else offset s) = offset s + int (length d)"
    using ssl_read_pos[OF r] ssl_read_nonpos[OF r] by (cases "0 < ret") auto
  let ?b1 = "take ?o ?b @ d @ drop (?o + length d) ?b"
  have s1: "store ?b (offset s) d = Some ?b1"
    using o dl by (intro store_inside) auto
  have l1: "length ?b1 = length ?b" using dl by simp
  have t1: "take (?o + length d) ?b1 = take ?o ?b @ d" using dl by simp
  have d1: "drop (?o + length d + 1) ?b1 = drop (?o + length d + 1) ?b" using dl by simp
  have n: "nat (offset s + int (length d)) = ?o + length d" using o by simp
  have s2: "store ?b1 (offset s + int (length d)) [NUL]
              = Some (take ?o ?b @ d @ NUL # drop (?o + length d + 1) ?b)"
  proof -
    have "store ?b1 (offset s + int (length d)) [NUL]
            = Some (take (nat (offset s + int (length d))) ?b1 @ [NUL]
                     @ drop (nat (offset s + int (length d)) + length [NUL]) ?b1)"
      using o dl l1 by (intro store_inside) auto
    also have "\<dots> = Some (take ?o ?b @ d @ NUL # drop (?o + length d + 1) ?b)"
      unfolding n using t1 d1 by simp
    finally show ?thesis .
  qed
  have "read_iter ev s = Some (ret,
             \<lparr>buffer = take ?o ?b @ d @ NUL # drop (?o + length d + 1) ?b,
              offset = offset s + int (length d),
              got200 = (got200 s \<or>
                 strstr (take ?o ?b @ d @ NUL # drop (?o + length d + 1) ?b) HTTPS_OK_STR),
              gothello = (gothello s \<or>
                 strstr (take ?o ?b @ d @ NUL # drop (?o + length d + 1) ?b) HTTPS_HELLO_STR)\<rparr>)"
    unfolding read_iter_def Let_def
    by (simp only: len if_False r prod.case s1 option.case off s2)
  then show ?thesis by (simp only: rx_def)
qed

lemma read_iter_facts:
  assumes f: "fits s" and it: "read_iter ev s = Some (ret, s')"
  shows "length (buffer s') = length (buffer s)"
    and "fits s'"
    and "buffer s' ! nat (offset s') = NUL"
    and "rx s' = rx s @ snd (mbedtls_ssl_read ev (int (length (buffer s)) - offset s - 1))"
    and "ret = fst (mbedtls_ssl_read ev (int (length (buffer s)) - offset s - 1))"
    and "offset s' = offset s +
           int (length (snd (mbedtls_ssl_read ev (int (length (buffer s)) - offset s - 1))))"
    and "c_str (buffer s') = c_str (rx s')"
    and "got200 s' \<longleftrightarrow> got200 s \<or> sublist HTTPS_OK_STR (c_str (rx s'))"
    and "gothello s' \<longleftrightarrow> gothello s \<or> sublist HTTPS_HELLO_STR (c_str (rx s'))"
proof -
  obtain r d where r: "mbedtls_ssl_read ev (int (length (buffer s)) - offset s - 1) = (r, d)"
    by (cases "mbedtls_ssl_read ev (int (length (buffer s)) - offset s - 1)")
  let ?b = "rx s @ d @ NUL # drop (nat (offset s) + length d + 1) (buffer s)"
  from read_iter_fits[OF f r] it
  have ret: "ret = r"
    and s': "s' = \<lparr>buffer = ?b, offset = offset s + int (length d),
                    got200 = (got200 s \<or> strstr ?b HTTPS_OK_STR),
                    gothello = (gothello s \<or> strstr ?b HTTPS_HELLO_STR)\<rparr>"
    by simp_all
  from f have o: "0 \<le> offset s" "nat (offset s) < length (buffer s)" by (auto simp: fits_def)
  from ssl_read_length[OF r] o
  have dl: "nat (offset s) + length d + 1 \<le> length (buffer s)" by linarith
  have lrx: "length (rx s) = nat (offset s)" using o by (simp add: rx_def)
  have n: "nat (offset s + int (length d)) = length (rx s @ d)" using o lrx by simp
  show "length (buffer s') = length (buffer s)" using dl lrx by (simp add: s')
  then show "fits s'" using o dl by (simp add: fits_def s')
  have sp: "buffer s' = (rx s @ d) @ NUL # drop (nat (offset s) + length d + 1) (buffer s)"
    by (simp add: s')
  have "buffer s' ! length (rx s @ d) = NUL"
    by (subst sp) (rule nth_append_length)
  moreover have no: "nat (offset s') = length (rx s @ d)" using n by (simp add: s')
  ultimately show "buffer s' ! nat (offset s') = NUL" by simp
  show rx': "rx s' = rx s @ snd (mbedtls_ssl_read ev (int (length (buffer s)) - offset s - 1))"
  proof -
    have "rx s' = take (length (rx s @ d)) ((rx s @ d) @ NUL # drop (nat (offset s) + length d + 1) (buffer s))"
      unfolding rx_def[of s'] no sp ..
    also have "\<dots> = rx s @ d" by (rule take_length_append)
    finally show ?thesis by (simp add: r)
  qed
  show "ret = fst (mbedtls_ssl_read ev (int (length (buffer s)) - offset s - 1))"
    by (simp add: ret r)
  show "offset s' = offset s +
           int (length (snd (mbedtls_ssl_read ev (int (length (buffer s)) - offset s - 1))))"
    by (simp add: s' r)
  have b: "buffer s' = rx s' @ NUL # drop (nat (offset s) + length d + 1) (buffer s)"
    using rx' by (simp add: s' r)
  show "c_str (buffer s') = c_str (rx s')"
    by (subst b) (rule c_str_terminated)
  have st: "strstr ?b m \<longleftrightarrow> sublist m (c_str (rx s'))" for m
    using strstr_terminated[of "rx s @ d" _ m] rx' by (simp add: r)
  show "got200 s' \<longleftrightarrow> got200 s \<or> sublist HTTPS_OK_STR (c_str (rx s'))"
    using st[of HTTPS_OK_STR] by (simp add: s')
  show "gothello s' \<longleftrightarrow> gothello s \<or> sublist HTTPS_HELLO_STR (c_str (rx s'))"
    using st[of HTTPS_HELLO_STR] by (simp add: s')
qed

lemma read_iter_defined: "fits s \<Longrightarrow> \<exists>ret s'. read_iter ev s = Some (ret, s')"
  using read_iter_fits[of s ev] by (cases "mbedtls_ssl_read ev (int (length (buffer s)) - offset s - 1)") auto

lemma read_iter_marked:
  assumes f: "fits s" and m: "marked s" and it: "read_iter ev s = Some (ret, s')"
  shows "marked s'"
proof -
  note facts = read_iter_facts[OF f it]
  have "prefix (c_str (rx s)) (c_str (rx s'))"
    by (subst facts(4)) (rule c_str_append_prefix)
  then have "sublist n (c_str (rx s)) \<Longrightarrow> sublist n (c_str (rx s'))" for n
    by (rule sublist_prefix_mono[rotated])
  with m facts(8,9) show ?thesis by (auto simp: marked_def)
qed

lemma read_loop_again_log:
  assumes "read_iter ev s = Some (ret, s')" and "again s' ret"
  shows "read_loop (ev # evs) s =
           (SslRead (offset s) (int (length (buffer s)) - offset s - 1) # fst (read_loop evs s'),
            snd (read_loop evs s'))"
  using assms by (auto simp: Let_def again_def split: prod.splits)

lemma read_loop_stop_log:
  assumes "read_iter ev s = Some (ret, s')" and "\<not> again s' ret"
  shows "read_loop (ev # evs) s =
           ([SslRead (offset s) (int (length (buffer s)) - offset s - 1)], Done ret s')"
  using assms by (auto simp: Let_def again_def split: prod.splits)

lemma read_loop_again:
  assumes "read_iter ev s = Some (ret, s')" and "again s' ret"
  shows "snd (read_loop (ev # evs) s) = snd (read_loop evs s')"
  by (simp only: read_loop_again_log[OF assms] snd_conv)

lemma read_loop_stop:
  assumes "read_iter ev s = Some (ret, s')" and "\<not> again s' ret"
  shows "snd (read_loop (ev # evs) s) = Done ret s'"
  by (simp only: read_loop_stop_log[OF assms] snd_conv)

lemma read_loop_invariant:
  assumes step: "\<And>s ev ret s'. fits s \<Longrightarrow> P s \<Longrightarrow> read_iter ev s = Some (ret, s') \<Longrightarrow> P s'"
    and "fits s" and "P s"
  shows "\<exists>s'. state_of (snd (read_loop evs s)) = Some s' \<and> fits s' \<and> P s'"
  using assms(2,3)
proof (induction evs arbitrary: s)
  case Nil
  then show ?case by simp
next
  case (Cons ev evs)
  from read_iter_defined[OF Cons.prems(1)]
  obtain ret s1 where it: "read_iter ev s = Some (ret, s1)" by blast
  have f1: "fits s1" by (rule read_iter_facts(2)[OF Cons.prems(1) it])
  have p1: "P s1" by (rule step[OF Cons.prems it])
  show ?case
  proof (cases "again s1 ret")
    case True
    then have "snd (read_loop (ev # evs) s) = snd (read_loop evs s1)"
      by (rule read_loop_again[OF it])
    with Cons.IH[OF f1 p1] show ?thesis by simp
  next
    case False
    then have "snd (read_loop (ev # evs) s) = Done ret s1"
      by (rule read_loop_stop[OF it])
    with f1 p1 show ?thesis by simp
  qed
qed

lemma read_loop_terminated:
  assumes f: "fits s" and ne: "evs \<noteq> []"
  shows "\<exists>s'. state_of (snd (read_loop evs s)) = Some s' \<and> fits s' \<and>
              terminated (length (buffer s)) s'"
proof -
  from ne obtain ev evs' where evs: "evs = ev # evs'" by (cases evs) auto
  from read_iter_defined[OF f] obtain ret s1 where it: "read_iter ev s = Some (ret, s1)"
    by blast
  note facts = read_iter_facts[OF f it]
  have t1: "terminated (length (buffer s)) s1"
    using facts(1,3) by (simp add: terminated_def)
  have step: "\<And>s ev ret s'. fits s \<Longrightarrow> terminated C s \<Longrightarrow> read_iter ev s = Some (ret, s')
                \<Longrightarrow> terminated C s'" for C
    using read_iter_facts(1,3) by (simp add: terminated_def)
  show ?thesis
  proof (cases "again s1 ret")
    case True
    then have "snd (read_loop evs s) = snd (read_loop evs' s1)"
      unfolding evs by (rule read_loop_again[OF it])
    with read_loop_invariant[where P = "terminated (length (buffer s))" and evs = evs',
        OF step facts(2) t1]
    show ?thesis by simp
  next
    case False
    then have "snd (read_loop evs s) = Done ret s1"
      unfolding evs by (rule read_loop_stop[OF it])
    with facts(2) t1 show ?thesis by simp
  qed
qed

lemma read_loop_calls:
  assumes "fits s"
  shows "\<forall>c\<in>set (fst (read_loop evs s)).
           \<exists>off. c = SslRead off (int (length (buffer s)) - off - 1) \<and>
                 0 \<le> off \<and> off < int (length (buffer s))"
  using assms
proof (induction evs arbitrary: s)
  case Nil
  then show ?case by simp
next
  case (Cons ev evs)
  from read_iter_defined[OF Cons.prems]
  obtain ret s1 where it: "read_iter ev s = Some (ret, s1)" by blast
  note facts = read_iter_facts[OF Cons.prems it]
  have c: "\<exists>off. SslRead (offset s) (int (length (buffer s)) - offset s - 1) =
               SslRead off (int (length (buffer s)) - off - 1) \<and>
               0 \<le> off \<and> off < int (length (buffer s))"
    using Cons.prems by (auto simp: fits_def)
  show ?case
  proof (cases "again s1 ret")
    case True
    from Cons.IH[OF facts(2)] facts(1) c show ?thesis
      unfolding read_loop_again_log[OF it True] by simp
  next
    case False
    from c show ?thesis
      unfolding read_loop_stop_log[OF it False] by simp
  qed
qed

text \<open>
  Claim C3. For a buffer of capacity \<open>C\<close> and every sequence of read results, after
  every pass of the read loop (the sequence is arbitrary, so after each of its
  prefixes) no write has left the buffer (the loop has a state: it is not \<open>Overrun\<close>),
  the buffer still has \<open>C\<close> bytes, the fill cursor \<open>offset\<close> is between 0 and \<open>C - 1\<close>,
  and the byte at the fill cursor is the terminator. Every slice that a read call is
  given starts inside the buffer and ends at index \<open>C - 1\<close>, so that the last byte is
  left for the terminator.
\<close>

theorem C3_read_buffer_bound:
  assumes "length buf = C" and "0 < C" and "evs \<noteq> []"
  shows "(\<exists>s. state_of (snd (read_loop evs
                \<lparr>buffer = buf, offset = 0, got200 = g, gothello = h\<rparr>)) = Some s \<and>
             length (buffer s) = C \<and> 0 \<le> offset s \<and> offset s \<le> int C - 1 \<and>
             buffer s ! nat (offset s) = NUL) \<and>
         (\<forall>c\<in>set (fst (read_loop evs \<lparr>buffer = buf, offset = 0, got200 = g, gothello = h\<rparr>)).
             \<exists>off len. c = SslRead off len \<and> 0 \<le> off \<and> 0 \<le> len \<and> off + len = int C - 1)"
proof -
  let ?s0 = "\<lparr>buffer = buf, offset = 0, got200 = g, gothello = h\<rparr>"
  have f: "fits ?s0" using assms(1,2) by (simp add: fits_def)
  from read_loop_terminated[OF f assms(3)] assms(1)
  have a: "\<exists>s. state_of (snd (read_loop evs ?s0)) = Some s \<and>
             length (buffer s) = C \<and> 0 \<le> offset s \<and> offset s \<le> int C - 1 \<and>
             buffer s ! nat (offset s) = NUL"
    by (auto simp: fits_def terminated_def)
  have b: "\<exists>off len. c = SslRead off len \<and> 0 \<le> off \<and> 0 \<le> len \<and> off + len = int C - 1"
    if "c \<in> set (fst (read_loop evs ?s0))" for c
  proof -
    from read_loop_calls[OF f, of evs] that assms(1)
    obtain off where "c = SslRead off (int C - off - 1)" "0 \<le> off" "off < int C" by auto
    then show ?thesis by (intro exI[of _ off] exI[of _ "int C - off - 1"]) simp
  qed
  from a b show ?thesis by blast
qed

theorem C3_read_buffer_bound_witness:
  "(\<exists>s. state_of (snd (read_loop [Received ''200 OK'', Received ''!'']
                \<lparr>buffer = ''xxxx'', offset = 0, got200 = False, gothello = False\<rparr>)) = Some s \<and>
        length (buffer s) = 4 \<and> 0 \<le> offset s \<and> offset s \<le> 3 \<and>
        buffer s ! nat (offset s) = NUL) \<and>
   fst (read_loop [Received ''200 OK'', Received ''!'']
                \<lparr>buffer = ''xxxx'', offset = 0, got200 = False, gothello = False\<rparr>)
     = [SslRead 0 3, SslRead 3 0]"
proof -
  have h: "length ''xxxx'' = 4" "(0::nat) < 4" "[Received ''200 OK'', Received ''!''] \<noteq> []"
    by simp_all
  have l: "fst (read_loop [Received ''200 OK'', Received ''!'']
                \<lparr>buffer = ''xxxx'', offset = 0, got200 = False, gothello = False\<rparr>)
     = [SslRead 0 3, SslRead 3 0]"
    by (simp add: read_iter_def store_def strstr_def c_str_def NUL_def
      HTTPS_OK_STR_def HTTPS_HELLO_STR_def MBEDTLS_ERR_SSL_WANT_READ_def
      MBEDTLS_ERR_SSL_WANT_WRITE_def)
  from C3_read_buffer_bound [OF h, of False False, THEN conjunct1] l
  show ?thesis by simp
qed

lemma c_str_at_cursor:
  assumes "fits s" and "buffer s ! nat (offset s) = NUL"
  shows "c_str (buffer s) = c_str (rx s)"
proof -
  from assms(1) have "nat (offset s) < length (buffer s)" by (auto simp: fits_def)
  from id_take_nth_drop[OF this] assms(2)
  have "buffer s = rx s @ NUL # drop (Suc (nat (offset s))) (buffer s)"
    by (simp add: rx_def)
  then show ?thesis by (metis c_str_terminated)
qed

lemma store_cursor:
  assumes "fits s"
  shows "\<exists>b. store (buffer s) (offset s) [NUL] = Some b \<and> c_str b = c_str (rx s)"
proof -
  from assms have o: "0 \<le> offset s" "offset s + int (length [NUL]) \<le> int (length (buffer s))"
    by (auto simp: fits_def)
  show ?thesis
    unfolding store_inside[OF o] by (simp add: rx_def c_str_terminated)
qed

lemma read_loop_pending_missing:
  assumes "snd (read_loop evs s) = Pending s'" and "\<not> (got200 s \<and> gothello s)"
  shows "\<not> (got200 s' \<and> gothello s')"
  using assms
proof (induction evs arbitrary: s)
  case Nil
  then show ?case by simp
next
  case (Cons ev evs)
  show ?case
  proof (cases "read_iter ev s")
    case None
    with Cons.prems(1) show ?thesis by (simp add: Let_def)
  next
    case (Some p)
    obtain ret s1 where it: "read_iter ev s = Some (ret, s1)" using Some by (cases p) auto
    show ?thesis
    proof (cases "again s1 ret")
      case True
      with Cons.prems(1) have "snd (read_loop evs s1) = Pending s'"
        by (simp only: read_loop_again[OF it True])
      moreover from True have "\<not> (got200 s1 \<and> gothello s1)" by (auto simp: again_def)
      ultimately show ?thesis by (rule Cons.IH)
    next
      case False
      with Cons.prems(1) show ?thesis by (simp only: read_loop_stop[OF it False] loop.distinct)
    qed
  qed
qed

lemma read_loop_done_found:
  assumes "fits s" and "marked s" and "\<not> (got200 s \<and> gothello s)"
    and "snd (read_loop evs s) = Done ret s'" and "got200 s'" and "gothello s'"
  shows "0 < ret"
  using assms
proof (induction evs arbitrary: s)
  case Nil
  then show ?case by simp
next
  case (Cons ev evs)
  from read_iter_defined[OF Cons.prems(1)]
  obtain r1 s1 where it: "read_iter ev s = Some (r1, s1)" by blast
  note facts = read_iter_facts[OF Cons.prems(1) it]
  have m1: "marked s1" by (rule read_iter_marked[OF Cons.prems(1,2) it])
  show ?case
  proof (cases "again s1 r1")
    case True
    with Cons.prems(4) have d: "snd (read_loop evs s1) = Done ret s'"
      by (simp only: read_loop_again[OF it True])
    from True have "\<not> (got200 s1 \<and> gothello s1)" by (auto simp: again_def)
    from Cons.IH[OF facts(2) m1 this d Cons.prems(5,6)] show ?thesis .
  next
    case False
    with Cons.prems(4) have eq: "ret = r1" "s' = s1"
      by (simp_all only: read_loop_stop[OF it False] loop.inject)
    show ?thesis
    proof (rule ccontr)
      assume "\<not> 0 < ret"
      then have "r1 \<le> 0" using eq by simp
      then have "snd (mbedtls_ssl_read ev (int (length (buffer s)) - offset s - 1)) = []"
        using facts(5) ssl_read_nonpos[of ev "int (length (buffer s)) - offset s - 1" r1]
        by (cases "mbedtls_ssl_read ev (int (length (buffer s)) - offset s - 1)") auto
      then have "rx s1 = rx s" using facts(4) by simp
      with Cons.prems(2) m1 have "got200 s1 = got200 s" "gothello s1 = gothello s"
        by (auto simp: marked_def)
      with Cons.prems(3,5,6) eq show False by simp
    qed
  qed
qed

lemma start_fits: "0 < length buf \<Longrightarrow> fits (start buf)"
  by (simp add: fits_def start_def)

lemma start_marked: "marked (start buf)"
  by (simp add: marked_def start_def rx_def c_str_def HTTPS_OK_STR_def HTTPS_HELLO_STR_def)

lemma read_loop_start:
  assumes "0 < length buf" and "state_of (snd (read_loop evs (start buf))) = Some s"
  shows "fits s" and "marked s"
  using read_loop_invariant[where P = marked and evs = evs,
      OF read_iter_marked start_fits[OF assms(1)] start_marked] assms(2)
  by auto

lemma response_phase_done:
  assumes d: "read_loop evs (start buf) = (cs, Done ret s)" and f: "fits s"
  shows "response_phase evs buf =
           (if ret < 0 then (cs @ [SocketClose], Failed ''mbedtls_ssl_read'' ret)
            else (cs @ [SocketClose],
                  Reported (nat (offset s)) (got200 s) (gothello s) (c_str (rx s))))"
proof -
  from store_cursor[OF f] obtain b where
    b: "store (buffer s) (offset s) [NUL] = Some b" "c_str b = c_str (rx s)" by blast
  show ?thesis
    unfolding response_phase_def start_def[symmetric] d by (simp add: b)
qed

lemma response_phase_reported:
  assumes r: "response_phase evs buf = (cs, Reported n g h msg)"
  shows "\<exists>ret s. snd (read_loop evs (start buf)) = Done ret s \<and> 0 \<le> ret \<and>
           n = nat (offset s) \<and> g = got200 s \<and> h = gothello s"
  using r unfolding response_phase_def start_def[symmetric]
  by (auto split: prod.splits loop.splits if_splits option.splits)

text \<open>
  Claim C5. Each flag of the status messages is true exactly when its marker occurs in
  the text that is printed, the text of the buffer. The read loop goes on only while a
  marker is missing: a loop that is about to read again has not both flags set. And
  when the loop is left, the run ends in the status messages with both flags true
  exactly when the text of the buffer contains both \<open>"200 OK"\<close> and \<open>"Hello world!"\<close>.
\<close>

theorem C5_markers_reported:
  assumes pos: "0 < length buf"
  shows "(\<forall>cs n g h msg. response_phase evs buf = (cs, Reported n g h msg) \<longrightarrow>
            (g \<longleftrightarrow> sublist HTTPS_OK_STR msg) \<and> (h \<longleftrightarrow> sublist HTTPS_HELLO_STR msg)) \<and>
         (\<forall>s. snd (read_loop evs \<lparr>buffer = buf, offset = 0, got200 = False, gothello = False\<rparr>)
                 = Pending s \<longrightarrow> \<not> (got200 s \<and> gothello s)) \<and>
         (\<forall>ret s. snd (read_loop evs \<lparr>buffer = buf, offset = 0, got200 = False, gothello = False\<rparr>)
                 = Done ret s \<longrightarrow>
            ((\<exists>cs n msg. response_phase evs buf = (cs, Reported n True True msg)) \<longleftrightarrow>
             sublist HTTPS_OK_STR (c_str (buffer s)) \<and>
             sublist HTTPS_HELLO_STR (c_str (buffer s))))"
proof (intro conjI allI impI)
  fix cs n g h msg
  assume r: "response_phase evs buf = (cs, Reported n g h msg)"
  obtain cs' l where rl: "read_loop evs (start buf) = (cs', l)"
    by (cases "read_loop evs (start buf)")
  from response_phase_reported[OF r] obtain ret s where
    d: "l = Done ret s" and ret: "0 \<le> ret" using rl by auto
  have st: "state_of (snd (read_loop evs (start buf))) = Some s" by (simp add: rl d)
  note inv = read_loop_start[OF pos st]
  from response_phase_done[OF rl[unfolded d] inv(1)] r ret
  have "g = got200 s" "h = gothello s" "msg = c_str (rx s)" by simp_all
  with inv(2) show "g \<longleftrightarrow> sublist HTTPS_OK_STR msg" "h \<longleftrightarrow> sublist HTTPS_HELLO_STR msg"
    by (simp_all add: marked_def)
next
  fix s
  assume "snd (read_loop evs \<lparr>buffer = buf, offset = 0, got200 = False, gothello = False\<rparr>)
            = Pending s"
  from read_loop_pending_missing[OF this] show "\<not> (got200 s \<and> gothello s)" by simp
next
  fix ret s
  assume d: "snd (read_loop evs \<lparr>buffer = buf, offset = 0, got200 = False, gothello = False\<rparr>)
               = Done ret s"
  then have d': "snd (read_loop evs (start buf)) = Done ret s" by (simp add: start_def)
  then obtain cs where rl: "read_loop evs (start buf) = (cs, Done ret s)"
    by (cases "read_loop evs (start buf)") auto
  have st: "state_of (snd (read_loop evs (start buf))) = Some s" by (simp add: d')
  note inv = read_loop_start[OF pos st]
  have ne: "evs \<noteq> []" using d' by auto
  from read_loop_terminated[OF start_fits[OF pos] ne] st
  have "buffer s ! nat (offset s) = NUL" by (auto simp: terminated_def)
  from c_str_at_cursor[OF inv(1) this] have cs: "c_str (buffer s) = c_str (rx s)" .
  note rp = response_phase_done[OF rl inv(1)]
  show "(\<exists>cs n msg. response_phase evs buf = (cs, Reported n True True msg)) \<longleftrightarrow>
          sublist HTTPS_OK_STR (c_str (buffer s)) \<and> sublist HTTPS_HELLO_STR (c_str (buffer s))"
  proof
    assume "\<exists>cs n msg. response_phase evs buf = (cs, Reported n True True msg)"
    with rp have "got200 s" "gothello s" by (auto split: if_splits)
    with inv(2) cs show "sublist HTTPS_OK_STR (c_str (buffer s)) \<and>
        sublist HTTPS_HELLO_STR (c_str (buffer s))" by (simp add: marked_def)
  next
    assume "sublist HTTPS_OK_STR (c_str (buffer s)) \<and> sublist HTTPS_HELLO_STR (c_str (buffer s))"
    with inv(2) cs have g: "got200 s" "gothello s" by (simp_all add: marked_def)
    have "0 < ret"
      by (rule read_loop_done_found[OF start_fits[OF pos] start_marked _ d' g])
         (simp add: start_def)
    with rp g show "\<exists>cs n msg. response_phase evs buf = (cs, Reported n True True msg)"
      by simp
  qed
qed

theorem C5_markers_reported_witness:
  "response_phase [Received ''HTTP/1.1 200 OK'', Status MBEDTLS_ERR_SSL_WANT_READ,
                   Received ''Hello world!''] ''GET /hello.txt HTTP/1.1 Host: os.mbed.com''
     = ([SslRead 0 40, SslRead 15 25, SslRead 15 25, SocketClose],
        Reported 27 True True ''HTTP/1.1 200 OKHello world!'') \<and>
   sublist HTTPS_OK_STR ''HTTP/1.1 200 OKHello world!'' \<and>
   sublist HTTPS_HELLO_STR ''HTTP/1.1 200 OKHello world!'' \<and>
   (\<exists>s. snd (read_loop [Received ''HTTP/1.1 200 OK'']
             \<lparr>buffer = ''GET /hello.txt HTTP/1.1 Host: os.mbed.com'', offset = 0,
              got200 = False, gothello = False\<rparr>) = Pending s \<and>
        \<not> (got200 s \<and> gothello s)) \<and>
   (\<exists>ret s. snd (read_loop [Received ''HTTP/1.1 200 OK'', Status MBEDTLS_ERR_SSL_WANT_READ,
                   Received ''Hello world!'']
             \<lparr>buffer = ''GET /hello.txt HTTP/1.1 Host: os.mbed.com'', offset = 0,
              got200 = False, gothello = False\<rparr>) = Done ret s \<and>
        sublist HTTPS_OK_STR (c_str (buffer s)) \<and>
        sublist HTTPS_HELLO_STR (c_str (buffer s)))"
proof -
  let ?buf = "''GET /hello.txt HTTP/1.1 Host: os.mbed.com''"
  let ?evs = "[Received ''HTTP/1.1 200 OK'', Status MBEDTLS_ERR_SSL_WANT_READ,
               Received ''Hello world!'']"
  let ?s0 = "\<lparr>buffer = ?buf, offset = 0, got200 = False, gothello = False\<rparr>"
  have p: "0 < length ?buf" by simp
  have r: "response_phase ?evs ?buf
     = ([SslRead 0 40, SslRead 15 25, SslRead 15 25, SocketClose],
        Reported 27 True True ''HTTP/1.1 200 OKHello world!'')"
    by (simp add: response_phase_def read_iter_def store_def strstr_def c_str_def NUL_def
      HTTPS_OK_STR_def HTTPS_HELLO_STR_def MBEDTLS_ERR_SSL_WANT_READ_def
      MBEDTLS_ERR_SSL_WANT_WRITE_def)
  obtain s1 where s1: "snd (read_loop [Received ''HTTP/1.1 200 OK''] ?s0) = Pending s1"
    by (simp add: read_iter_def store_def strstr_def c_str_def NUL_def
      HTTPS_OK_STR_def HTTPS_HELLO_STR_def MBEDTLS_ERR_SSL_WANT_READ_def
      MBEDTLS_ERR_SSL_WANT_WRITE_def)
  obtain ret s2 where s2: "snd (read_loop ?evs ?s0) = Done ret s2"
    by (simp add: read_iter_def store_def strstr_def c_str_def NUL_def
      HTTPS_OK_STR_def HTTPS_HELLO_STR_def MBEDTLS_ERR_SSL_WANT_READ_def
      MBEDTLS_ERR_SSL_WANT_WRITE_def)
  note a = C5_markers_reported [OF p, of ?evs, THEN conjunct1, rule_format, OF r]
  note b = C5_markers_reported [OF p, of "[Received ''HTTP/1.1 200 OK'']",
      THEN conjunct2, THEN conjunct1, rule_format, OF s1]
  note c = C5_markers_reported [OF p, of ?evs, THEN conjunct2, THEN conjunct2, rule_format, OF s2]
  from r c have "sublist HTTPS_OK_STR (c_str (buffer s2)) \<and>
      sublist HTTPS_HELLO_STR (c_str (buffer s2))" by blast
  with a b r s1 s2 show ?thesis by blast
qed

lemma read_loop_append:
  "read_loop (evs @ later) s =
     (case read_loop evs s of
        (cs, Pending s') \<Rightarrow> (cs @ fst (read_loop later s'), snd (read_loop later s'))
      | r \<Rightarrow> r)"
  by (induction evs arbitrary: s) (auto simp: Let_def split: prod.splits option.splits loop.splits)

text \<open>
  Claim C6. When the read loop is still running after the results \<open>pre\<close>, so that a
  marker is missing, and the next read returns 0, the loop is left and the run is not
  treated as an error: the socket is closed after that read, and the status messages
  report the fill cursor and the two flags as they were, each flag telling whether its
  marker occurs in the text received so far.
\<close>

theorem C6_clean_close_reports:
  assumes pos: "0 < length buf"
    and pre: "snd (read_loop pre \<lparr>buffer = buf, offset = 0, got200 = False, gothello = False\<rparr>)
                = Pending s"
    and zero: "fst (mbedtls_ssl_read ev (int (length (buffer s)) - offset s - 1)) = 0"
  shows "response_phase (pre @ ev # rest) buf =
           (fst (read_loop (pre @ [ev])
                   \<lparr>buffer = buf, offset = 0, got200 = False, gothello = False\<rparr>) @ [SocketClose],
            Reported (nat (offset s)) (got200 s) (gothello s)
              (c_str (take (nat (offset s)) (buffer s)))) \<and>
         (got200 s \<longleftrightarrow> sublist HTTPS_OK_STR (c_str (take (nat (offset s)) (buffer s)))) \<and>
         (gothello s \<longleftrightarrow> sublist HTTPS_HELLO_STR (c_str (take (nat (offset s)) (buffer s))))"
proof -
  from pre have p: "snd (read_loop pre (start buf)) = Pending s" by (simp add: start_def)
  then have st: "state_of (snd (read_loop pre (start buf))) = Some s" by simp
  note inv = read_loop_start[OF pos st]
  from read_iter_defined[OF inv(1)] obtain ret s1 where it: "read_iter ev s = Some (ret, s1)"
    by blast
  note facts = read_iter_facts[OF inv(1) it]
  have ret: "ret = 0" using facts(5) zero by simp
  have "snd (mbedtls_ssl_read ev (int (length (buffer s)) - offset s - 1)) = []"
    using ssl_read_nonpos[of ev "int (length (buffer s)) - offset s - 1" 0] zero
    by (cases "mbedtls_ssl_read ev (int (length (buffer s)) - offset s - 1)") auto
  then have same: "rx s1 = rx s" "offset s1 = offset s" using facts(4,6) by simp_all
  with inv(2) facts(8,9) have flags: "got200 s1 = got200 s" "gothello s1 = gothello s"
    by (auto simp: marked_def)
  have stop: "\<not> again s1 ret"
    by (simp add: again_def ret MBEDTLS_ERR_SSL_WANT_READ_def MBEDTLS_ERR_SSL_WANT_WRITE_def)
  obtain cs where cs: "read_loop pre (start buf) = (cs, Pending s)"
    using p by (cases "read_loop pre (start buf)") auto
  have one: "read_loop (ev # later) s =
      ([SslRead (offset s) (int (length (buffer s)) - offset s - 1)], Done 0 s1)" for later
    using read_loop_stop_log[OF it stop] ret by simp
  have full: "read_loop (pre @ ev # later) (start buf) =
      (cs @ [SslRead (offset s) (int (length (buffer s)) - offset s - 1)], Done 0 s1)" for later
    unfolding read_loop_append cs by (simp only: prod.case loop.case one fst_conv snd_conv)
  have "response_phase (pre @ ev # rest) buf =
          ((cs @ [SslRead (offset s) (int (length (buffer s)) - offset s - 1)]) @ [SocketClose],
           Reported (nat (offset s1)) (got200 s1) (gothello s1) (c_str (rx s1)))"
    using response_phase_done[OF full[of rest] facts(2)] by simp
  moreover have "fst (read_loop (pre @ [ev]) (start buf)) =
      cs @ [SslRead (offset s) (int (length (buffer s)) - offset s - 1)]"
    by (simp only: full[of "[]"] fst_conv)
  ultimately have "response_phase (pre @ ev # rest) buf =
           (fst (read_loop (pre @ [ev]) (start buf)) @ [SocketClose],
            Reported (nat (offset s)) (got200 s) (gothello s) (c_str (rx s)))"
    using same flags by simp
  with inv(2) show ?thesis by (simp add: marked_def rx_def start_def)
qed

theorem C6_clean_close_reports_witness:
  "response_phase ([Received ''HTTP/1.1 200 OK''] @ Status 0 # [Received ''Hello world!'']) ''GET /hello.txt HTTP/1.1 Host: os.mbed.com''
     = ([SslRead 0 40, SslRead 15 25, SocketClose],
        Reported 15 True False ''HTTP/1.1 200 OK'')"
proof -
  let ?s = "\<lparr>buffer = ''HTTP/1.1 200 OK'' @ NUL # drop 16 ''GET /hello.txt HTTP/1.1 Host: os.mbed.com'', offset = 15,
             got200 = True, gothello = False\<rparr>"
  have p: "0 < length ''GET /hello.txt HTTP/1.1 Host: os.mbed.com''" by simp
  have a: "snd (read_loop [Received ''HTTP/1.1 200 OK'']
           \<lparr>buffer = ''GET /hello.txt HTTP/1.1 Host: os.mbed.com'', offset = 0, got200 = False, gothello = False\<rparr>) = Pending ?s"
    by (simp add: read_iter_def store_def strstr_def c_str_def NUL_def
      HTTPS_OK_STR_def HTTPS_HELLO_STR_def MBEDTLS_ERR_SSL_WANT_READ_def
      MBEDTLS_ERR_SSL_WANT_WRITE_def)
  have z: "fst (mbedtls_ssl_read (Status 0) (int (length (buffer ?s)) - offset ?s - 1)) = 0"
    by simp
  have l: "fst (read_loop ([Received ''HTTP/1.1 200 OK''] @ [Status 0])
           \<lparr>buffer = ''GET /hello.txt HTTP/1.1 Host: os.mbed.com'', offset = 0, got200 = False, gothello = False\<rparr>)
           = [SslRead 0 40, SslRead 15 25]"
    by (simp add: read_iter_def store_def strstr_def c_str_def NUL_def
      HTTPS_OK_STR_def HTTPS_HELLO_STR_def MBEDTLS_ERR_SSL_WANT_READ_def
      MBEDTLS_ERR_SSL_WANT_WRITE_def)
  from C6_clean_close_reports [OF p a z, of "[Received ''Hello world!'']"] l
  show ?thesis by (simp add: c_str_def NUL_def)
qed

lemma read_iter_flags_mono:
  assumes "read_iter ev s = Some (ret, s')"
  shows "(got200 s \<longrightarrow> got200 s') \<and> (gothello s \<longrightarrow> gothello s')"
  using assms unfolding read_iter_def Let_def
  by (auto split: if_splits prod.splits option.splits)

lemma read_loop_flags_mono:
  assumes "state_of (snd (read_loop evs s)) = Some s'"
  shows "(got200 s \<longrightarrow> got200 s') \<and> (gothello s \<longrightarrow> gothello s')"
  using assms
proof (induction evs arbitrary: s)
  case Nil
  then show ?case by simp
next
  case (Cons ev evs)
  show ?case
  proof (cases "read_iter ev s")
    case None
    with Cons.prems show ?thesis by (simp add: Let_def)
  next
    case (Some p)
    obtain ret s1 where it: "read_iter ev s = Some (ret, s1)" using Some by (cases p) auto
    note m1 = read_iter_flags_mono[OF it]
    show ?thesis
    proof (cases "again s1 ret")
      case True
      with Cons.prems have "state_of (snd (read_loop evs s1)) = Some s'"
        by (simp only: read_loop_again[OF it True])
      from Cons.IH[OF this] m1 show ?thesis by blast
    next
      case False
      with Cons.prems have "s' = s1"
        by (simp only: read_loop_stop[OF it False] state_of.simps option.inject)
      with m1 show ?thesis by simp
    qed
  qed
qed

text \<open>
  Claim C8. Within one run of the read loop the two flags only go from false to true:
  a flag that is set after some sequence of read results is set after every longer
  sequence, whatever is read later, and it is set in the status messages at the end.
\<close>

theorem C8_marker_flags_monotone:
  assumes a: "state_of (snd (read_loop evs
                \<lparr>buffer = buf, offset = 0, got200 = False, gothello = False\<rparr>)) = Some s"
  shows "(\<forall>s'. state_of (snd (read_loop (evs @ later)
                \<lparr>buffer = buf, offset = 0, got200 = False, gothello = False\<rparr>)) = Some s' \<longrightarrow>
            (got200 s \<longrightarrow> got200 s') \<and> (gothello s \<longrightarrow> gothello s')) \<and>
         (\<forall>cs n g h msg. response_phase (evs @ later) buf = (cs, Reported n g h msg) \<longrightarrow>
            (got200 s \<longrightarrow> g) \<and> (gothello s \<longrightarrow> h))"
proof -
  have mono: "(got200 s \<longrightarrow> got200 s') \<and> (gothello s \<longrightarrow> gothello s')"
    if b: "state_of (snd (read_loop (evs @ later) (start buf))) = Some s'" for s'
  proof (cases "snd (read_loop evs (start buf))")
    case (Pending t)
    with a have t: "t = s" by (simp add: start_def)
    from Pending b have "state_of (snd (read_loop later s)) = Some s'"
      unfolding read_loop_append t by (auto split: prod.splits)
    then show ?thesis by (rule read_loop_flags_mono)
  next
    case (Done r t)
    with a have t: "t = s" by (simp add: start_def)
    from Done b have "s' = s"
      unfolding read_loop_append t by (auto split: prod.splits)
    then show ?thesis by simp
  next
    case Overrun
    with a show ?thesis by (simp add: start_def)
  qed
  show ?thesis
  proof (intro conjI allI)
    fix s'
    show "state_of (snd (read_loop (evs @ later)
              \<lparr>buffer = buf, offset = 0, got200 = False, gothello = False\<rparr>)) = Some s' \<longrightarrow>
            (got200 s \<longrightarrow> got200 s') \<and> (gothello s \<longrightarrow> gothello s')"
      using mono[of s'] by (simp add: start_def)
  next
    fix cs n g h msg
    show "response_phase (evs @ later) buf = (cs, Reported n g h msg) \<longrightarrow>
            (got200 s \<longrightarrow> g) \<and> (gothello s \<longrightarrow> h)"
    proof
      assume "response_phase (evs @ later) buf = (cs, Reported n g h msg)"
      from response_phase_reported[OF this] obtain ret s' where
        d: "snd (read_loop (evs @ later) (start buf)) = Done ret s'"
        and g: "g = got200 s'" "h = gothello s'" by blast
      from d have "state_of (snd (read_loop (evs @ later) (start buf))) = Some s'" by simp
      from mono[OF this] g show "(got200 s \<longrightarrow> g) \<and> (gothello s \<longrightarrow> h)" by simp
    qed
  qed
qed

theorem C8_marker_flags_monotone_witness:
  "\<exists>s s'. state_of (snd (read_loop [Received ''HTTP/1.1 200 OK'']
              \<lparr>buffer = ''GET /hello.txt HTTP/1.1 Host: os.mbed.com'', offset = 0,
               got200 = False, gothello = False\<rparr>)) = Some s \<and> got200 s \<and>
      state_of (snd (read_loop ([Received ''HTTP/1.1 200 OK''] @
                   [Status MBEDTLS_ERR_SSL_WANT_READ, Received [NUL, NUL], Status 0])
              \<lparr>buffer = ''GET /hello.txt HTTP/1.1 Host: os.mbed.com'', offset = 0,
               got200 = False, gothello = False\<rparr>)) = Some s' \<and> got200 s' \<and>
      response_phase ([Received ''HTTP/1.1 200 OK''] @
             [Status MBEDTLS_ERR_SSL_WANT_READ, Received [NUL, NUL], Status 0])
          ''GET /hello.txt HTTP/1.1 Host: os.mbed.com''
        = ([SslRead 0 40, SslRead 15 25, SslRead 15 25, SslRead 17 23, SocketClose],
           Reported 17 True False ''HTTP/1.1 200 OK'')"
proof -
  let ?buf = "''GET /hello.txt HTTP/1.1 Host: os.mbed.com''"
  let ?s0 = "\<lparr>buffer = ?buf, offset = 0, got200 = False, gothello = False\<rparr>"
  let ?later = "[Status MBEDTLS_ERR_SSL_WANT_READ, Received [NUL, NUL], Status 0]"
  obtain s where a: "state_of (snd (read_loop [Received ''HTTP/1.1 200 OK''] ?s0)) = Some s"
    and g: "got200 s"
    by (simp add: read_iter_def store_def strstr_def c_str_def NUL_def
      HTTPS_OK_STR_def HTTPS_HELLO_STR_def MBEDTLS_ERR_SSL_WANT_READ_def
      MBEDTLS_ERR_SSL_WANT_WRITE_def)
  obtain s' where b: "state_of (snd (read_loop ([Received ''HTTP/1.1 200 OK''] @ ?later) ?s0))
      = Some s'"
    by (simp add: read_iter_def store_def strstr_def c_str_def NUL_def
      HTTPS_OK_STR_def HTTPS_HELLO_STR_def MBEDTLS_ERR_SSL_WANT_READ_def
      MBEDTLS_ERR_SSL_WANT_WRITE_def)
  have r: "response_phase ([Received ''HTTP/1.1 200 OK''] @ ?later) ?buf
          = ([SslRead 0 40, SslRead 15 25, SslRead 15 25, SslRead 17 23, SocketClose],
             Reported 17 True False ''HTTP/1.1 200 OK'')"
    by (simp add: response_phase_def read_iter_def store_def strstr_def c_str_def NUL_def
      HTTPS_OK_STR_def HTTPS_HELLO_STR_def MBEDTLS_ERR_SSL_WANT_READ_def
      MBEDTLS_ERR_SSL_WANT_WRITE_def)
  from C8_marker_flags_monotone [OF a, of ?later, THEN conjunct1, rule_format, OF b] g
  have "got200 s'" by blast
  with a g b r show ?thesis by blast
qed

lemma sim_fits: "sim s t \<Longrightarrow> fits s \<Longrightarrow> fits t"
  by (simp add: sim_def fits_def)

lemma read_iter_sim:
  assumes f: "fits s" and st: "sim s t" and it: "read_iter ev s = Some (ret, s')"
  shows "\<exists>t'. read_iter ev t = Some (ret, t') \<and> sim s' t' \<and> again t' ret = again s' ret"
proof -
  have ft: "fits t" by (rule sim_fits[OF st f])
  from read_iter_defined[OF ft] obtain r2 t' where it2: "read_iter ev t = Some (r2, t')" by blast
  note a = read_iter_facts[OF f it] and b = read_iter_facts[OF ft it2]
  from st have eq: "offset t = offset s" "length (buffer t) = length (buffer s)" "rx t = rx s"
    "got200 t = got200 s" "gothello t = gothello s" by (simp_all add: sim_def)
  have r: "r2 = ret" using a(5) b(5) eq by simp
  have "sim s' t'"
    unfolding sim_def using a(1,4,6,8,9) b(1,4,6,8,9) eq by simp
  moreover from this have "again t' ret = again s' ret" by (simp add: again_def sim_def)
  ultimately show ?thesis using it2 r by simp
qed

lemma read_loop_sim:
  assumes "fits s" and "sim s t"
  shows "fst (read_loop evs s) = fst (read_loop evs t) \<and>
         sim_loop (snd (read_loop evs s)) (snd (read_loop evs t))"
  using assms
proof (induction evs arbitrary: s t)
  case Nil
  then show ?case by simp
next
  case (Cons ev evs)
  from read_iter_defined[OF Cons.prems(1)]
  obtain ret s1 where it: "read_iter ev s = Some (ret, s1)" by blast
  from read_iter_sim[OF Cons.prems it] obtain t1 where
    it2: "read_iter ev t = Some (ret, t1)" and s1: "sim s1 t1"
    and ag: "again t1 ret = again s1 ret" by blast
  have f1: "fits s1" by (rule read_iter_facts(2)[OF Cons.prems(1) it])
  from Cons.prems(2) have c: "SslRead (offset t) (int (length (buffer t)) - offset t - 1) =
      SslRead (offset s) (int (length (buffer s)) - offset s - 1)" by (simp add: sim_def)
  show ?case
  proof (cases "again s1 ret")
    case True
    then have t: "again t1 ret" using ag by simp
    show ?thesis
      unfolding read_loop_again_log[OF it True] read_loop_again_log[OF it2 t] c
      using Cons.IH[OF f1 s1] by simp
  next
    case False
    then have t: "\<not> again t1 ret" using ag by simp
    show ?thesis
      unfolding read_loop_stop_log[OF it False] read_loop_stop_log[OF it2 t] c
      using s1 by simp
  qed
qed

text \<open>
  Claim C10. The response is read into the buffer that held the request, from offset
  0. What the buffer held makes no difference: for two buffers of the same capacity
  and every sequence of read results, the log and the outcome of the response are the
  same, flags and printed text included. After every pass of the loop the text that
  the scan sees ends at or before the fill cursor, and each flag tells whether its
  marker occurs in the text of the bytes received.
\<close>

theorem C10_flags_from_received_bytes:
  assumes len: "length b1 = length b2"
  shows "response_phase evs b1 = response_phase evs b2 \<and>
         (\<forall>s. evs \<noteq> [] \<longrightarrow>
            state_of (snd (read_loop evs
               \<lparr>buffer = b1, offset = 0, got200 = False, gothello = False\<rparr>)) = Some s \<longrightarrow>
            c_str (buffer s) = c_str (take (nat (offset s)) (buffer s)) \<and>
            (got200 s \<longleftrightarrow> sublist HTTPS_OK_STR (c_str (take (nat (offset s)) (buffer s)))) \<and>
            (gothello s \<longleftrightarrow> sublist HTTPS_HELLO_STR (c_str (take (nat (offset s)) (buffer s)))))"
proof (cases "b1 = []")
  case True
  with len have b: "b1 = []" "b2 = []" by simp_all
  have "read_iter ev \<lparr>buffer = [], offset = 0, got200 = False, gothello = False\<rparr> = None" for ev
    by (simp add: read_iter_def)
  then have "state_of (snd (read_loop evs
               \<lparr>buffer = [], offset = 0, got200 = False, gothello = False\<rparr>)) = None"
    if "evs \<noteq> []"
    using that by (cases evs) (simp_all add: Let_def)
  then show ?thesis by (simp add: b)
next
  case False
  then have pos: "0 < length b1" "0 < length b2" using len by auto
  have s: "sim (start b1) (start b2)" using len by (simp add: sim_def start_def rx_def)
  note rl = read_loop_sim[OF start_fits[OF pos(1)] s, of evs]
  have "response_phase evs b1 = response_phase evs b2"
  proof (cases "read_loop evs (start b1)")
    case (Pair cs l)
    obtain cs' l' where p2: "read_loop evs (start b2) = (cs', l')"
      by (cases "read_loop evs (start b2)")
    from rl Pair p2 have cs: "cs' = cs" and sl: "sim_loop l l'" by simp_all
    show ?thesis
    proof (cases l)
      case (Pending x)
      with sl obtain y where "l' = Pending y" by (cases l') auto
      with Pending Pair p2 cs show ?thesis
        by (simp add: response_phase_def start_def[symmetric])
    next
      case (Done r x)
      with sl obtain y where l': "l' = Done r y" and xy: "sim x y" by (cases l') auto
      have "state_of (snd (read_loop evs (start b1))) = Some x" by (simp add: Pair Done)
      from read_loop_start(1)[OF pos(1) this] have fx: "fits x" .
      have fy: "fits y" by (rule sim_fits[OF xy fx])
      from response_phase_done[OF Pair[unfolded Done] fx]
        response_phase_done[OF p2[unfolded l' cs] fy] xy
      show ?thesis by (simp add: sim_def)
    next
      case Overrun
      with sl have "l' = Overrun" by (cases l') auto
      with Overrun Pair p2 cs show ?thesis
        by (simp add: response_phase_def start_def[symmetric])
    qed
  qed
  moreover have "c_str (buffer s) = c_str (take (nat (offset s)) (buffer s)) \<and>
            (got200 s \<longleftrightarrow> sublist HTTPS_OK_STR (c_str (take (nat (offset s)) (buffer s)))) \<and>
            (gothello s \<longleftrightarrow> sublist HTTPS_HELLO_STR (c_str (take (nat (offset s)) (buffer s))))"
    if ne: "evs \<noteq> []" and st: "state_of (snd (read_loop evs (start b1))) = Some s" for s
  proof -
    note inv = read_loop_start[OF pos(1) st]
    from read_loop_terminated[OF start_fits[OF pos(1)] ne] st
    have "buffer s ! nat (offset s) = NUL" by (auto simp: terminated_def)
    from c_str_at_cursor[OF inv(1) this] inv(2) show ?thesis
      by (simp add: marked_def rx_def)
  qed
  ultimately show ?thesis by (simp add: start_def)
qed

theorem C10_flags_from_received_bytes_witness:
  "response_phase [Received ''HTTP/1.1 '', Status 0] ''GET /200 OK Hello world!''
     = response_phase [Received ''HTTP/1.1 '', Status 0] ''GET /hello.txt HTTP/1.1 '' \<and>
   response_phase [Received ''HTTP/1.1 '', Status 0] ''GET /hello.txt HTTP/1.1 ''
     = ([SslRead 0 23, SslRead 9 14, SocketClose], Reported 9 False False ''HTTP/1.1 '') \<and>
   c_str (''HTTP/1.1 '' @ NUL # ''K Hello world!'') = ''HTTP/1.1 ''"
proof -
  let ?b1 = "''GET /200 OK Hello world!''" and ?b2 = "''GET /hello.txt HTTP/1.1 ''"
  let ?evs = "[Received ''HTTP/1.1 '']"
  let ?s = "\<lparr>buffer = ''HTTP/1.1 '' @ NUL # ''K Hello world!'', offset = 9,
             got200 = False, gothello = False\<rparr>"
  have l: "length ?b1 = length ?b2" by simp
  have ne: "?evs \<noteq> []" by simp
  have st: "state_of (snd (read_loop ?evs
       \<lparr>buffer = ?b1, offset = 0, got200 = False, gothello = False\<rparr>)) = Some ?s"
    by (simp add: read_iter_def store_def strstr_def c_str_def NUL_def
      HTTPS_OK_STR_def HTTPS_HELLO_STR_def MBEDTLS_ERR_SSL_WANT_READ_def
      MBEDTLS_ERR_SSL_WANT_WRITE_def)
  have r: "response_phase [Received ''HTTP/1.1 '', Status 0] ?b2
     = ([SslRead 0 23, SslRead 9 14, SocketClose], Reported 9 False False ''HTTP/1.1 '')"
    by (simp add: response_phase_def read_iter_def store_def strstr_def c_str_def NUL_def
      HTTPS_OK_STR_def HTTPS_HELLO_STR_def MBEDTLS_ERR_SSL_WANT_READ_def
      MBEDTLS_ERR_SSL_WANT_WRITE_def)
  note t = C10_flags_from_received_bytes [OF l]
  from t [of "[Received ''HTTP/1.1 '', Status 0]", THEN conjunct1]
    t [of ?evs, THEN conjunct2, rule_format, OF ne st, THEN conjunct1] r
  show ?thesis by (simp add: c_str_def NUL_def)
qed

section \<open>Retries without a bound\<close>

lemma read_blocked:
  assumes f: "fits s" and o: "offset s = 0" and g: "\<not> got200 s" "\<not> gothello s"
    and w: "would_block r"
  shows "\<exists>s'. read_iter (Status r) s = Some (r, s') \<and> fits s' \<and> offset s' = 0 \<and>
              \<not> got200 s' \<and> \<not> gothello s' \<and> length (buffer s') = length (buffer s) \<and>
              again s' r"
proof -
  from read_iter_defined[OF f] obtain ret s' where it: "read_iter (Status r) s = Some (ret, s')"
    by blast
  note facts = read_iter_facts[OF f it]
  have neg: "r < 0" by (rule would_block_negative[OF w])
  then have ret: "ret = r" using facts(5) by simp
  have o': "offset s' = 0" using facts(6) o by simp
  have "rx s' = []" using facts(4) o by (simp add: rx_def)
  then have g': "\<not> got200 s'" "\<not> gothello s'"
    using facts(8,9) g by (simp_all add: c_str_def HTTPS_OK_STR_def HTTPS_HELLO_STR_def)
  have "again s' r" using g' w by (simp add: again_def would_block_def)
  with it ret facts(1,2) o' g' show ?thesis by simp
qed

lemma read_loop_blocked:
  assumes "fits s" and "offset s = 0" and "\<not> got200 s" "\<not> gothello s"
    and "\<forall>r\<in>set rets. would_block r"
  shows "\<exists>s'. read_loop (map Status rets) s =
           (replicate (length rets) (SslRead 0 (int (length (buffer s)) - 1)), Pending s')"
  using assms
proof (induction rets arbitrary: s)
  case Nil
  then show ?case by simp
next
  case (Cons r rets)
  from Cons.prems(5) have w: "would_block r" and all: "\<forall>r\<in>set rets. would_block r" by simp_all
  from read_blocked[OF Cons.prems(1-4) w] obtain s1 where
    it: "read_iter (Status r) s = Some (r, s1)" and s1: "fits s1" "offset s1 = 0"
    "\<not> got200 s1" "\<not> gothello s1" and len: "length (buffer s1) = length (buffer s)"
    and ag: "again s1 r" by blast
  from Cons.IH[OF s1 all] obtain s' where
    "read_loop (map Status rets) s1 =
       (replicate (length rets) (SslRead 0 (int (length (buffer s1)) - 1)), Pending s')" by blast
  then show ?case
    using read_loop_again_log[OF it ag, of "map Status rets"] Cons.prems(2) len by simp
qed

text \<open>
  Claim C9. No loop counts its retries or watches a clock. When every call of the
  handshake returns a would-block result, the handshake loop is never left: on the
  endless sequence of results it has no value, and after any number \<open>n\<close> of results
  it has made \<open>n\<close> calls and is about to call again. The same holds after \<open>n\<close>
  would-block results for the write loop, for a request that is not empty, with \<open>n\<close>
  calls for the whole request, and for the read loop, for a buffer that is not empty,
  with \<open>n\<close> calls for the whole buffer.
\<close>

theorem C9_retry_unbounded:
  assumes "\<forall>i. f i = MBEDTLS_ERR_SSL_WANT_READ \<or> f i = MBEDTLS_ERR_SSL_WANT_WRITE"
    and "\<forall>r\<in>set rets. r = MBEDTLS_ERR_SSL_WANT_READ \<or> r = MBEDTLS_ERR_SSL_WANT_WRITE"
  shows "handshake_run f 0 = None \<and>
         handshake_loop rets = (replicate (length rets) SslHandshake, None) \<and>
         (0 < L \<longrightarrow> write_loop L 0 rets = (replicate (length rets) (SslWrite 0 (int L)), None)) \<and>
         (0 < length buf \<longrightarrow>
            response_phase (map Status rets) buf =
              (replicate (length rets) (SslRead 0 (int (length buf) - 1)), Running))"
proof -
  have all: "\<forall>r\<in>set rets. would_block r" using assms(2) by (simp add: would_block_def)
  have "\<forall>i. would_block (f i)" using assms(1) by (simp add: would_block_def)
  then have z: "handshake_run f 0 = None" by (rule handshake_run_blocked)
  have a: "handshake_loop rets = (replicate (length rets) SslHandshake, None)"
    by (rule handshake_loop_blocked[OF all])
  have b: "write_loop L 0 rets = (replicate (length rets) (SslWrite 0 (int L)), None)" if "0 < L"
    using all
  proof (induction rets)
    case Nil
    then show ?case by simp
  next
    case (Cons r rets)
    then have w: "would_block r" by simp
    then have neg: "\<not> 0 < r" using would_block_negative by fastforce
    have lt: "(if 0 < r then 0 + r else 0) < int L" using neg that by simp
    show ?case
      using write_loop_again[OF lt disjI2[OF w], of rets] neg Cons by simp
  qed
  have c: "response_phase (map Status rets) buf =
            (replicate (length rets) (SslRead 0 (int (length buf) - 1)), Running)"
    if "0 < length buf"
  proof -
    from read_loop_blocked[OF start_fits[OF that] _ _ _ all, of] obtain s' where
      "read_loop (map Status rets) (start buf) =
         (replicate (length rets) (SslRead 0 (int (length (buffer (start buf))) - 1)), Pending s')"
      by (auto simp: start_def)
    then show ?thesis
      by (simp add: response_phase_def start_def)
  qed
  from z a b c show ?thesis by blast
qed

theorem C9_retry_unbounded_witness:
  "handshake_run (\<lambda>i. MBEDTLS_ERR_SSL_WANT_READ) 0 = None \<and>
   handshake_loop [MBEDTLS_ERR_SSL_WANT_READ, MBEDTLS_ERR_SSL_WANT_WRITE, MBEDTLS_ERR_SSL_WANT_READ]
     = ([SslHandshake, SslHandshake, SslHandshake], None) \<and>
   write_loop 5 0 [MBEDTLS_ERR_SSL_WANT_READ, MBEDTLS_ERR_SSL_WANT_WRITE, MBEDTLS_ERR_SSL_WANT_READ]
     = ([SslWrite 0 5, SslWrite 0 5, SslWrite 0 5], None) \<and>
   response_phase (map Status
       [MBEDTLS_ERR_SSL_WANT_READ, MBEDTLS_ERR_SSL_WANT_WRITE, MBEDTLS_ERR_SSL_WANT_READ]) ''xxxx''
     = ([SslRead 0 3, SslRead 0 3, SslRead 0 3], Running)"
proof -
  have g: "\<forall>i::nat. MBEDTLS_ERR_SSL_WANT_READ = MBEDTLS_ERR_SSL_WANT_READ \<or>
             MBEDTLS_ERR_SSL_WANT_READ = MBEDTLS_ERR_SSL_WANT_WRITE" by simp
  have h: "\<forall>r\<in>set [MBEDTLS_ERR_SSL_WANT_READ, MBEDTLS_ERR_SSL_WANT_WRITE,
                     MBEDTLS_ERR_SSL_WANT_READ].
             r = MBEDTLS_ERR_SSL_WANT_READ \<or> r = MBEDTLS_ERR_SSL_WANT_WRITE" by simp
  from C9_retry_unbounded [of "\<lambda>i. MBEDTLS_ERR_SSL_WANT_READ", OF g h, of 5 "''xxxx''"]
  show ?thesis
    by (simp add: numeral_3_eq_3)
qed

end
